theory Spec2Isabelle
  imports Main "HOL-Library.Char_ord" "HOL-Library.List_Lexorder"
begin

section \<open>The ordered multimap of ordered\_multimap.hpp\<close>

text \<open>
  \<^verbatim>\<open>ordered_multimap_t<Key, Value>\<close> keeps a \<^verbatim>\<open>std::list<std::pair<Key, Value>>\<close>
  (the sequence store) and a \<^verbatim>\<open>std::multimap<Key, list::iterator>\<close> (the key index).

  A list iterator is the address of a list node, or the past-the-end iterator. A node
  is modelled as a triple of its address, its key and its value; the list is the
  sequence of its nodes. Addresses are natural numbers handed out by a counter, so a
  new node never has the address of a node that is or was in the list, and an iterator
  to an erased node is recognisable as dangling.

  Operations whose C++ behaviour is undefined (dereferencing or incrementing
  \<^verbatim>\<open>end()\<close>, using an iterator to an erased node) return \<open>None\<close>.
\<close>

datatype iterator = It nat | End

type_synonym ('k, 'v) list_entry_t = "'k \<times> 'v"

type_synonym ('k, 'v) node = "nat \<times> 'k \<times> 'v"

record ('k, 'v) ordered_multimap_t =
  list_nodes :: "('k, 'v) node list"
  table :: "('k \<times> nat) list"
  next_addr :: nat

definition handle :: "('k, 'v) node \<Rightarrow> nat" where
  "handle n = fst n"

definition entry :: "('k, 'v) node \<Rightarrow> ('k, 'v) list_entry_t" where
  "entry n = snd n"

definition handles :: "('k, 'v) node list \<Rightarrow> nat list" where
  "handles ns = map handle ns"

subsection \<open>std::list\<close>

definition list_begin :: "('k, 'v) node list \<Rightarrow> iterator" where
  "list_begin ns = (case ns of [] \<Rightarrow> End | n # _ \<Rightarrow> It (handle n))"

text \<open>The nodes from the one at address \<open>h\<close> on; empty when \<open>h\<close> is not in the list.\<close>

definition from_node :: "nat \<Rightarrow> ('k, 'v) node list \<Rightarrow> ('k, 'v) node list" where
  "from_node h ns = dropWhile (\<lambda>n. handle n \<noteq> h) ns"

text \<open>\<^verbatim>\<open>*it\<close>: undefined for \<^verbatim>\<open>end()\<close> and for a dangling iterator.\<close>

definition deref :: "iterator \<Rightarrow> ('k, 'v) node list \<Rightarrow> ('k, 'v) list_entry_t option" where
  "deref it ns =
     (case it of End \<Rightarrow> None
      | It h \<Rightarrow> (case from_node h ns of [] \<Rightarrow> None | n # _ \<Rightarrow> Some (entry n)))"

text \<open>\<^verbatim>\<open>std::next(it)\<close> and \<^verbatim>\<open>++it\<close>: undefined for \<^verbatim>\<open>end()\<close> and for a dangling iterator.\<close>

definition std_next :: "iterator \<Rightarrow> ('k, 'v) node list \<Rightarrow> iterator option" where
  "std_next it ns =
     (case it of End \<Rightarrow> None
      | It h \<Rightarrow> (case from_node h ns of [] \<Rightarrow> None | _ # rest \<Rightarrow> Some (list_begin rest)))"

text \<open>\<^verbatim>\<open>list.erase(it)\<close> for the iterator to the node at \<open>h\<close>; node addresses are unique.\<close>

definition list_erase :: "nat \<Rightarrow> ('k, 'v) node list \<Rightarrow> ('k, 'v) node list option" where
  "list_erase h ns =
     (if h \<in> set (handles ns) then Some (filter (\<lambda>n. handle n \<noteq> h) ns) else None)"

text \<open>\<^verbatim>\<open>it->second = value\<close> for the iterator to the node at \<open>h\<close>.\<close>

definition set_value :: "nat \<Rightarrow> 'v \<Rightarrow> ('k, 'v) node list \<Rightarrow> ('k, 'v) node list option" where
  "set_value h v ns =
     (if h \<in> set (handles ns)
      then Some (map (\<lambda>n. if handle n = h then (handle n, fst (entry n), v) else n) ns)
      else None)"

text \<open>
  \<^verbatim>\<open>list.sort(fun)\<close> is a stable sort by the comparator \<open>fun\<close> (a strict "less than");
  it relinks the nodes, every iterator keeps its node. For a comparator that is a strict
  weak ordering the stable order is unique, and it is the one insertion from the right
  produces.
\<close>

fun insort_by :: "(('k, 'v) list_entry_t \<Rightarrow> ('k, 'v) list_entry_t \<Rightarrow> bool) \<Rightarrow>
    ('k, 'v) node \<Rightarrow> ('k, 'v) node list \<Rightarrow> ('k, 'v) node list" where
  "insort_by lt x [] = [x]"
| "insort_by lt x (y # ys) =
     (if lt (entry y) (entry x) then y # insort_by lt x ys else x # y # ys)"

definition list_sort :: "(('k, 'v) list_entry_t \<Rightarrow> ('k, 'v) list_entry_t \<Rightarrow> bool) \<Rightarrow>
    ('k, 'v) node list \<Rightarrow> ('k, 'v) node list" where
  "list_sort lt ns = foldr (insort_by lt) ns []"

subsection \<open>std::multimap\<close>

text \<open>
  The multimap is the list of its (key, list iterator) elements in iteration order:
  ascending by key, elements with equal keys in the order of their insertion (as the
  standard requires since C++11). A multimap iterator is a position in that list, and
  \<^verbatim>\<open>table.end()\<close> is its length. Every stored list iterator comes from
  \<^verbatim>\<open>list.insert\<close>, so the element holds the node address.
\<close>

fun multimap_insert :: "'k::linorder \<Rightarrow> nat \<Rightarrow> ('k \<times> nat) list \<Rightarrow> ('k \<times> nat) list" where
  "multimap_insert k h [] = [(k, h)]"
| "multimap_insert k h (e # t) =
     (if k < fst e then (k, h) # e # t else e # multimap_insert k h t)"

definition lower_bound :: "'k::linorder \<Rightarrow> ('k \<times> nat) list \<Rightarrow> nat" where
  "lower_bound k t = length (takeWhile (\<lambda>e. fst e < k) t)"

definition upper_bound :: "'k::linorder \<Rightarrow> ('k \<times> nat) list \<Rightarrow> nat" where
  "upper_bound k t = length (takeWhile (\<lambda>e. \<not> k < fst e) t)"

definition multimap_equal_range :: "'k::linorder \<Rightarrow> ('k \<times> nat) list \<Rightarrow> nat \<times> nat" where
  "multimap_equal_range k t = (lower_bound k t, upper_bound k t)"

text \<open>
  \<^verbatim>\<open>table.find(key)\<close>: the lower bound when its key is equivalent, else \<^verbatim>\<open>table.end()\<close>
  (the standard library implementations return the first of several equivalent elements).
\<close>

definition multimap_find :: "'k::linorder \<Rightarrow> ('k \<times> nat) list \<Rightarrow> nat" where
  "multimap_find k t =
     (let i = lower_bound k t
      in if i < length t \<and> \<not> k < fst (t ! i) then i else length t)"

text \<open>
  The elements a loop \<^verbatim>\<open>for (it = first; it != second; ++it)\<close> visits, for the two
  bounds of one key (the first is never behind the second).
\<close>

definition between :: "nat \<Rightarrow> nat \<Rightarrow> ('k \<times> nat) list \<Rightarrow> ('k \<times> nat) list" where
  "between first second t = take (second - first) (drop first t)"

definition multimap_erase_range :: "nat \<Rightarrow> nat \<Rightarrow> ('k \<times> nat) list \<Rightarrow> ('k \<times> nat) list" where
  "multimap_erase_range first second t = take first t @ drop second t"

definition multimap_erase :: "nat \<Rightarrow> ('k \<times> nat) list \<Rightarrow> ('k \<times> nat) list" where
  "multimap_erase i t = take i t @ drop (Suc i) t"

subsection \<open>ordered\_multimap\_t\<close>

definition empty_omm :: "('k, 'v) ordered_multimap_t" where
  "empty_omm = \<lparr>list_nodes = [], table = [], next_addr = 0\<rparr>"

definition clear :: "('k, 'v) ordered_multimap_t \<Rightarrow> ('k, 'v) ordered_multimap_t" where
  "clear m = m\<lparr>list_nodes := [], table := []\<rparr>"

definition size_omm :: "('k, 'v) ordered_multimap_t \<Rightarrow> nat" where
  "size_omm m = length (list_nodes m)"

definition begin_omm :: "('k, 'v) ordered_multimap_t \<Rightarrow> iterator" where
  "begin_omm m = list_begin (list_nodes m)"

definition end_omm :: "('k, 'v) ordered_multimap_t \<Rightarrow> iterator" where
  "end_omm m = End"

definition front :: "('k, 'v) ordered_multimap_t \<Rightarrow> iterator" where
  "front m = list_begin (list_nodes m)"

definition to_vector :: "('k, 'v) ordered_multimap_t \<Rightarrow> ('k, 'v) list_entry_t list" where
  "to_vector m = map entry (list_nodes m)"

definition insert_omm :: "'k::linorder \<Rightarrow> 'v \<Rightarrow> ('k, 'v) ordered_multimap_t \<Rightarrow>
    iterator \<times> ('k, 'v) ordered_multimap_t" where
  "insert_omm key val m =
     (let h = next_addr m
      in (It h, m\<lparr>list_nodes := list_nodes m @ [(h, key, val)],
                   table := multimap_insert key h (table m),
                   next_addr := Suc h\<rparr>))"

text \<open>\<^verbatim>\<open>emplace(key, args...)\<close>: \<open>val\<close> is the value the arguments construct.\<close>

definition emplace :: "'k::linorder \<Rightarrow> 'v \<Rightarrow> ('k, 'v) ordered_multimap_t \<Rightarrow>
    iterator \<times> ('k, 'v) ordered_multimap_t" where
  "emplace key val m =
     (let h = next_addr m
      in (It h, m\<lparr>list_nodes := list_nodes m @ [(h, key, val)],
                   table := multimap_insert key h (table m),
                   next_addr := Suc h\<rparr>))"

fun update_loop :: "nat list \<Rightarrow> 'v \<Rightarrow> ('k, 'v) node list \<Rightarrow> ('k, 'v) node list option" where
  "update_loop [] v ns = Some ns"
| "update_loop (h # hs) v ns =
     (case set_value h v ns of None \<Rightarrow> None | Some ns' \<Rightarrow> update_loop hs v ns')"

definition update :: "'k::linorder \<Rightarrow> 'v \<Rightarrow> ('k, 'v) ordered_multimap_t \<Rightarrow>
    (iterator \<times> ('k, 'v) ordered_multimap_t) option" where
  "update key val m =
     (let (first, second) = multimap_equal_range key (table m)
      in if first = second then Some (insert_omm key val m)
         else (case update_loop (map snd (between first second (table m))) val (list_nodes m) of
                 None \<Rightarrow> None
               | Some ns \<Rightarrow> Some (It (snd (table m ! first)), m\<lparr>list_nodes := ns\<rparr>)))"

text \<open>
  The loop of \<^verbatim>\<open>erase(key)\<close>. The test \<^verbatim>\<open>next == list.end()\<close> compares addresses; it is
  evaluated also when \<open>next\<close> holds the address of a node that an earlier iteration erased.
\<close>

fun erase_loop :: "nat list \<Rightarrow> iterator \<Rightarrow> ('k, 'v) node list \<Rightarrow>
    (iterator \<times> ('k, 'v) node list) option" where
  "erase_loop [] nxt ns = Some (nxt, ns)"
| "erase_loop (h # hs) nxt ns =
     (case (if nxt = End then std_next (It h) ns else Some nxt) of
        None \<Rightarrow> None
      | Some nxt' \<Rightarrow>
          (case list_erase h ns of None \<Rightarrow> None | Some ns' \<Rightarrow> erase_loop hs nxt' ns'))"

definition erase_key :: "'k::linorder \<Rightarrow> ('k, 'v) ordered_multimap_t \<Rightarrow>
    (iterator \<times> ('k, 'v) ordered_multimap_t) option" where
  "erase_key key m =
     (let (first, second) = multimap_equal_range key (table m)
      in if first = second then Some (End, m)
         else (case erase_loop (map snd (between first second (table m))) End (list_nodes m) of
                 None \<Rightarrow> None
               | Some (nxt, ns) \<Rightarrow>
                   Some (nxt, m\<lparr>list_nodes := ns,
                                 table := multimap_erase_range first second (table m)\<rparr>)))"

definition erase_iterator :: "iterator \<Rightarrow> ('k::linorder, 'v) ordered_multimap_t \<Rightarrow>
    (iterator \<times> ('k, 'v) ordered_multimap_t) option" where
  "erase_iterator it_list m =
     (case deref it_list (list_nodes m) of
        None \<Rightarrow> None
      | Some e \<Rightarrow>
          (let it_table = multimap_find (fst e) (table m)
           in if it_table = length (table m) then Some (End, m)
              else (case std_next it_list (list_nodes m) of
                      None \<Rightarrow> None
                    | Some it_list' \<Rightarrow>
                        (case list_erase (snd (table m ! it_table)) (list_nodes m) of
                           None \<Rightarrow> None
                         | Some ns \<Rightarrow>
                             Some (it_list', m\<lparr>list_nodes := ns,
                                              table := multimap_erase it_table (table m)\<rparr>)))))"

fun erase_value_loop :: "nat \<Rightarrow> nat \<Rightarrow> 'v \<Rightarrow> ('k, 'v) ordered_multimap_t \<Rightarrow>
    (nat \<times> ('k, 'v) ordered_multimap_t) option" where
  "erase_value_loop i 0 val m = Some (0, m)"
| "erase_value_loop i (Suc n) val m =
     (case deref (It (snd (table m ! i))) (list_nodes m) of
        None \<Rightarrow> None
      | Some e \<Rightarrow>
          if snd e = val
          then (case list_erase (snd (table m ! i)) (list_nodes m) of
                  None \<Rightarrow> None
                | Some ns \<Rightarrow> Some (1, m\<lparr>list_nodes := ns, table := multimap_erase i (table m)\<rparr>))
          else erase_value_loop (Suc i) n val m)"

definition erase_key_value :: "'k::linorder \<Rightarrow> 'v \<Rightarrow> ('k, 'v) ordered_multimap_t \<Rightarrow>
    (nat \<times> ('k, 'v) ordered_multimap_t) option" where
  "erase_key_value key val m =
     (let (first, second) = multimap_equal_range key (table m)
      in erase_value_loop first (second - first) val m)"

definition find_omm :: "'k::linorder \<Rightarrow> ('k, 'v) ordered_multimap_t \<Rightarrow> iterator" where
  "find_omm key m =
     (let itr = multimap_find key (table m)
      in if itr = length (table m) then End else It (snd (table m ! itr)))"

definition has :: "'k::linorder \<Rightarrow> ('k, 'v) ordered_multimap_t \<Rightarrow> bool" where
  "has key m \<longleftrightarrow> multimap_find key (table m) \<noteq> length (table m)"

definition count_omm :: "'k::linorder \<Rightarrow> ('k, 'v) ordered_multimap_t \<Rightarrow> nat" where
  "count_omm key m =
     (let (first, second) = multimap_equal_range key (table m) in second - first)"

definition sort_omm :: "(('k, 'v) list_entry_t \<Rightarrow> ('k, 'v) list_entry_t \<Rightarrow> bool) \<Rightarrow>
    ('k, 'v) ordered_multimap_t \<Rightarrow> ('k, 'v) ordered_multimap_t" where
  "sort_omm fun m = m\<lparr>list_nodes := list_sort fun (list_nodes m)\<rparr>"

definition equal_range :: "'k::linorder \<Rightarrow> ('k, 'v) ordered_multimap_t \<Rightarrow>
    (iterator \<times> iterator) option" where
  "equal_range key m =
     (let (first, second) = multimap_equal_range key (table m)
      in if first = second then Some (End, End)
         else (case std_next (if second = length (table m) then End
                              else It (snd (table m ! second))) (list_nodes m) of
                 None \<Rightarrow> None
               | Some e \<Rightarrow> Some (It (snd (table m ! first)), e)))"

fun merge_loop :: "('k::linorder, 'v) node list \<Rightarrow> ('k, 'v) ordered_multimap_t \<Rightarrow>
    ('k, 'v) ordered_multimap_t" where
  "merge_loop [] m = m"
| "merge_loop (n # ns) m =
     (let new_it = next_addr m
      in merge_loop ns
           (m\<lparr>list_nodes := list_nodes m @ [(new_it, entry n)],
              table := multimap_insert (fst (entry n)) new_it (table m),
              next_addr := Suc new_it\<rparr>))"

text \<open>
  \<^verbatim>\<open>this->merge(std::move(other))\<close> for two different containers; the result is the pair
  of \<^verbatim>\<open>*this\<close> and \<^verbatim>\<open>other\<close> after the call.
\<close>

definition merge :: "('k::linorder, 'v) ordered_multimap_t \<Rightarrow> ('k, 'v) ordered_multimap_t \<Rightarrow>
    ('k, 'v) ordered_multimap_t \<times> ('k, 'v) ordered_multimap_t" where
  "merge m other = (merge_loop (list_nodes other) m, clear other)"

text \<open>Copy assignment \<^verbatim>\<open>*this = other\<close> from a different container.\<close>

definition assign :: "('k::linorder, 'v) ordered_multimap_t \<Rightarrow> ('k, 'v) ordered_multimap_t \<Rightarrow>
    ('k, 'v) ordered_multimap_t" where
  "assign m other = merge_loop (list_nodes other) (clear m)"

fun extract_loop :: "nat list \<Rightarrow> 'v list \<Rightarrow> ('k, 'v) node list \<Rightarrow>
    ('v list \<times> ('k, 'v) node list) option" where
  "extract_loop [] result ns = Some (result, ns)"
| "extract_loop (h # hs) result ns =
     (case deref (It h) ns of
        None \<Rightarrow> None
      | Some e \<Rightarrow>
          (case list_erase h ns of
             None \<Rightarrow> None
           | Some ns' \<Rightarrow> extract_loop hs (result @ [snd e]) ns'))"

definition extract_omm :: "'k::linorder \<Rightarrow> ('k, 'v) ordered_multimap_t \<Rightarrow>
    ('v list \<times> ('k, 'v) ordered_multimap_t) option" where
  "extract_omm key m =
     (let (first, second) = multimap_equal_range key (table m)
      in (case extract_loop (map snd (between first second (table m))) [] (list_nodes m) of
            None \<Rightarrow> None
          | Some (result, ns) \<Rightarrow>
              Some (result, m\<lparr>list_nodes := ns,
                              table := multimap_erase_range first second (table m)\<rparr>)))"

subsection \<open>Traversal by the caller\<close>

text \<open>
  The entries a caller's loop \<^verbatim>\<open>for (it = first; it != last; ++it)\<close> reads through
  \<^verbatim>\<open>*it\<close>. \<open>walk_until\<close> runs over the nodes from the current one on; running off the
  end of the list before meeting the second iterator increments \<^verbatim>\<open>end()\<close>, which is undefined.
\<close>

fun walk_until :: "iterator \<Rightarrow> ('k, 'v) node list \<Rightarrow> ('k, 'v) list_entry_t list option" where
  "walk_until stop [] = (if stop = End then Some [] else None)"
| "walk_until stop (n # ns) =
     (if stop = It (handle n) then Some []
      else (case walk_until stop ns of None \<Rightarrow> None | Some es \<Rightarrow> Some (entry n # es)))"

definition iterate :: "iterator \<Rightarrow> iterator \<Rightarrow> ('k, 'v) node list \<Rightarrow>
    ('k, 'v) list_entry_t list option" where
  "iterate first stop ns =
     (case first of
        End \<Rightarrow> (if stop = End then Some [] else None)
      | It h \<Rightarrow> (case from_node h ns of [] \<Rightarrow> None | n # rest \<Rightarrow> walk_until stop (n # rest)))"

text \<open>\<^verbatim>\<open>for (const auto &entry : table)\<close>, from \<^verbatim>\<open>begin()\<close> to \<^verbatim>\<open>end()\<close>.\<close>

definition forward_iteration :: "('k, 'v) ordered_multimap_t \<Rightarrow>
    ('k, 'v) list_entry_t list option" where
  "forward_iteration m = iterate (begin_omm m) (end_omm m) (list_nodes m)"

text \<open>
  From \<^verbatim>\<open>rbegin()\<close> to \<^verbatim>\<open>rend()\<close>: a reverse iterator walks the same nodes from the
  last one to the first.
\<close>

definition reverse_iteration :: "('k, 'v) ordered_multimap_t \<Rightarrow>
    ('k, 'v) list_entry_t list option" where
  "reverse_iteration m = iterate (list_begin (rev (list_nodes m))) End (rev (list_nodes m))"

subsection \<open>Sequences of calls\<close>

text \<open>A call of \<^verbatim>\<open>insert\<close> or of \<^verbatim>\<open>emplace\<close>, and a sequence of such calls.\<close>

datatype ('k, 'v) insertion = Insert_call 'k 'v | Emplace_call 'k 'v

fun inserted :: "('k, 'v) insertion \<Rightarrow> ('k, 'v) list_entry_t" where
  "inserted (Insert_call k v) = (k, v)"
| "inserted (Emplace_call k v) = (k, v)"

fun call_insertion :: "('k::linorder, 'v) insertion \<Rightarrow> ('k, 'v) ordered_multimap_t \<Rightarrow>
    ('k, 'v) ordered_multimap_t" where
  "call_insertion (Insert_call k v) m = snd (insert_omm k v m)"
| "call_insertion (Emplace_call k v) m = snd (emplace k v m)"

definition call_insertions :: "('k::linorder, 'v) insertion list \<Rightarrow>
    ('k, 'v) ordered_multimap_t \<Rightarrow> ('k, 'v) ordered_multimap_t" where
  "call_insertions cs m = fold call_insertion cs m"

definition inserts :: "('k::linorder, 'v) list_entry_t list \<Rightarrow> ('k, 'v) ordered_multimap_t" where
  "inserts kvs = fold (\<lambda>kv m. snd (insert_omm (fst kv) (snd kv) m)) kvs empty_omm"

text \<open>
  The mutating public operations. \<open>Merge\<close> and \<open>Assign\<close> carry the other container, of
  which they read the sequence store only. Move construction and move assignment hand
  the whole state of the source to the target, so the history of the target is the one
  of the source.
\<close>

datatype ('k, 'v) operation =
    Insert 'k 'v
  | Emplace 'k 'v
  | Update 'k 'v
  | Erase_key 'k
  | Erase_iterator iterator
  | Erase_key_value 'k 'v
  | Extract 'k
  | Clear
  | Sort "('k, 'v) list_entry_t \<Rightarrow> ('k, 'v) list_entry_t \<Rightarrow> bool"
  | Merge "('k, 'v) ordered_multimap_t"
  | Assign "('k, 'v) ordered_multimap_t"

fun apply_operation :: "('k::linorder, 'v) operation \<Rightarrow> ('k, 'v) ordered_multimap_t \<Rightarrow>
    ('k, 'v) ordered_multimap_t option" where
  "apply_operation (Insert k v) m = Some (snd (insert_omm k v m))"
| "apply_operation (Emplace k v) m = Some (snd (emplace k v m))"
| "apply_operation (Update k v) m = map_option snd (update k v m)"
| "apply_operation (Erase_key k) m = map_option snd (erase_key k m)"
| "apply_operation (Erase_iterator it) m = map_option snd (erase_iterator it m)"
| "apply_operation (Erase_key_value k v) m = map_option snd (erase_key_value k v m)"
| "apply_operation (Extract k) m = map_option snd (extract_omm k m)"
| "apply_operation Clear m = Some (clear m)"
| "apply_operation (Sort f) m = Some (sort_omm f m)"
| "apply_operation (Merge other) m = Some (fst (merge m other))"
| "apply_operation (Assign other) m = Some (assign m other)"

fun run :: "('k::linorder, 'v) operation list \<Rightarrow> ('k, 'v) ordered_multimap_t \<Rightarrow>
    ('k, 'v) ordered_multimap_t option" where
  "run [] m = Some m"
| "run (c # cs) m = (case apply_operation c m of None \<Rightarrow> None | Some m' \<Rightarrow> run cs m')"

fun is_sort :: "('k, 'v) operation \<Rightarrow> bool" where
  "is_sort (Sort f) = True"
| "is_sort _ = False"

text \<open>The comparator of the test \<^verbatim>\<open>test_sort_by_value\<close>.\<close>

definition compare_value :: "('k, int) list_entry_t \<Rightarrow> ('k, int) list_entry_t \<Rightarrow> bool" where
  "compare_value a b \<longleftrightarrow> snd a < snd b"

subsection \<open>Consistency of the two substructures\<close>

text \<open>
  The key of a node, the nodes of a key in sequence order, and the node addresses the
  key index holds for a key, in index order.
\<close>

definition key_of :: "('k, 'v) node \<Rightarrow> 'k" where
  "key_of n = fst (entry n)"

definition nodes_with :: "'k \<Rightarrow> ('k, 'v) ordered_multimap_t \<Rightarrow> ('k, 'v) node list" where
  "nodes_with key m = filter (\<lambda>n. key_of n = key) (list_nodes m)"

definition index_handles :: "'k \<Rightarrow> ('k, 'v) ordered_multimap_t \<Rightarrow> nat list" where
  "index_handles key m = map snd (filter (\<lambda>e. fst e = key) (table m))"

text \<open>
  The 1:1 correspondence: each node of the sequence store has exactly one index element
  holding its address, and that element has the node's key; each index element holds
  the address of a node of the sequence store with the element's key.
\<close>

definition one_to_one :: "('k, 'v) ordered_multimap_t \<Rightarrow> bool" where
  "one_to_one m \<longleftrightarrow>
     (\<forall>n \<in> set (list_nodes m).
        map fst (filter (\<lambda>e. snd e = handle n) (table m)) = [key_of n]) \<and>
     (\<forall>e \<in> set (table m).
        map_option fst (deref (It (snd e)) (list_nodes m)) = Some (fst e))"

text \<open>
  The representation invariant: node addresses are unique and below the allocation
  counter, the index is ascending by key, and its elements are, without repetition of
  an address, the (key, address) pairs of the nodes.
\<close>

definition consistent :: "('k::linorder, 'v) ordered_multimap_t \<Rightarrow> bool" where
  "consistent m \<longleftrightarrow>
     distinct (handles (list_nodes m)) \<and>
     sorted (map fst (table m)) \<and>
     distinct (map snd (table m)) \<and>
     set (table m) = (\<lambda>n. (key_of n, handle n)) ` set (list_nodes m) \<and>
     (\<forall>h \<in> set (handles (list_nodes m)). h < next_addr m)"

text \<open>The index elements of a key are in the order of their nodes in the sequence.\<close>

definition index_in_sequence_order :: "'k \<Rightarrow> ('k, 'v) ordered_multimap_t \<Rightarrow> bool" where
  "index_in_sequence_order key m \<longleftrightarrow> index_handles key m = handles (nodes_with key m)"

text \<open>
  The container without the entries at the addresses in \<open>H\<close>: without their nodes and
  without the index elements that hold them.
\<close>

definition without :: "nat set \<Rightarrow> ('k, 'v) ordered_multimap_t \<Rightarrow> ('k, 'v) ordered_multimap_t" where
  "without H m =
     m\<lparr>list_nodes := filter (\<lambda>n. handle n \<notin> H) (list_nodes m),
       table := filter (\<lambda>e. snd e \<notin> H) (table m)\<rparr>"

section \<open>Properties of the model\<close>

subsection \<open>The index as a sorted list\<close>

lemma set_multimap_insert: "set (multimap_insert k h t) = insert (k, h) (set t)"
  by (induction t) auto

lemma sorted_multimap_insert:
  "sorted (map fst t) \<Longrightarrow> sorted (map fst (multimap_insert k h t))"
  by (induction t) (auto simp: set_multimap_insert)

lemma filter_multimap_insert:
  "sorted (map fst t) \<Longrightarrow>
   filter P (multimap_insert k h t) =
     filter P (filter (\<lambda>e. \<not> k < fst e) t) @ filter P [(k, h)] @ filter P (filter (\<lambda>e. k < fst e) t)"
proof (induction t)
  case Nil
  then show ?case by simp
next
  case (Cons e t)
  show ?case
  proof (cases "k < fst e")
    case True
    with Cons.prems have "\<forall>x \<in> set t. k < fst x" by auto
    then have "filter (\<lambda>e. \<not> k < fst e) t = []" "filter (\<lambda>e. k < fst e) t = t"
      by (auto simp: filter_empty_conv filter_id_conv)
    with True show ?thesis by simp
  next
    case False
    with Cons show ?thesis by simp
  qed
qed

lemma filter_key_multimap_insert:
  "sorted (map fst t) \<Longrightarrow>
   filter (\<lambda>e. fst e = k') (multimap_insert k h t) =
     filter (\<lambda>e. fst e = k') t @ (if k = k' then [(k, h)] else [])"
proof -
  assume s: "sorted (map fst t)"
  have a: "filter (\<lambda>e. fst e = k') (filter (\<lambda>e. \<not> k < fst e) t) =
           (if k' \<le> k then filter (\<lambda>e. fst e = k') t else [])"
    by (auto simp: filter_empty_conv intro!: filter_cong)
  have b: "filter (\<lambda>e. fst e = k') (filter (\<lambda>e. k < fst e) t) =
           (if k' \<le> k then [] else filter (\<lambda>e. fst e = k') t)"
    by (auto simp: filter_empty_conv intro!: filter_cong)
  show ?thesis
    unfolding filter_multimap_insert [OF s] a b by auto
qed

lemma distinct_multimap_insert:
  "distinct (map snd t) \<Longrightarrow> h \<notin> snd ` set t \<Longrightarrow> distinct (map snd (multimap_insert k h t))"
  by (induction t) (auto simp: set_multimap_insert)

text \<open>A sorted index splits into the elements below, at and above a key.\<close>

lemma takeWhile_less_sorted:
  "sorted (map fst t) \<Longrightarrow> takeWhile (\<lambda>e. fst e < k) t = filter (\<lambda>e. fst e < k) t"
proof (induction t)
  case Nil
  then show ?case by simp
next
  case (Cons e t)
  show ?case
  proof (cases "fst e < k")
    case True
    with Cons show ?thesis by simp
  next
    case False
    with Cons.prems have "\<forall>x \<in> set t. \<not> fst x < k" by auto
    then have "filter (\<lambda>e. fst e < k) t = []" by (auto simp: filter_empty_conv)
    with False show ?thesis by simp
  qed
qed

lemma takeWhile_not_greater_sorted:
  "sorted (map fst t) \<Longrightarrow> takeWhile (\<lambda>e. \<not> k < fst e) t = filter (\<lambda>e. \<not> k < fst e) t"
proof (induction t)
  case Nil
  then show ?case by simp
next
  case (Cons e t)
  show ?case
  proof (cases "k < fst e")
    case False
    with Cons show ?thesis by simp
  next
    case True
    with Cons.prems have "\<forall>x \<in> set t. k < fst x" by auto
    then have "filter (\<lambda>e. \<not> k < fst e) t = []" by (auto simp: filter_empty_conv)
    with True show ?thesis by simp
  qed
qed

lemma sorted_three_way:
  "sorted (map fst t) \<Longrightarrow>
   t = filter (\<lambda>e. fst e < k) t @ filter (\<lambda>e. fst e = k) t @ filter (\<lambda>e. k < fst e) t"
proof (induction t)
  case Nil
  then show ?case by simp
next
  case (Cons e t)
  then have ih: "t = filter (\<lambda>e. fst e < k) t @ filter (\<lambda>e. fst e = k) t @ filter (\<lambda>e. k < fst e) t"
    by simp
  consider "fst e < k" | "fst e = k" | "k < fst e" by (metis less_linear)
  then show ?case
  proof cases
    case 1
    then have "filter (\<lambda>e. fst e < k) (e # t) = e # filter (\<lambda>e. fst e < k) t"
      "filter (\<lambda>e. fst e = k) (e # t) = filter (\<lambda>e. fst e = k) t"
      "filter (\<lambda>e. k < fst e) (e # t) = filter (\<lambda>e. k < fst e) t"
      by auto
    with ih show ?thesis by (metis append_Cons)
  next
    case 2
    with Cons.prems have "\<forall>x \<in> set t. \<not> fst x < k" by auto
    then have "filter (\<lambda>e. fst e < k) t = []" by (auto simp: filter_empty_conv)
    moreover from 2 have "filter (\<lambda>e. fst e < k) (e # t) = filter (\<lambda>e. fst e < k) t"
      "filter (\<lambda>e. fst e = k) (e # t) = e # filter (\<lambda>e. fst e = k) t"
      "filter (\<lambda>e. k < fst e) (e # t) = filter (\<lambda>e. k < fst e) t"
      by auto
    ultimately show ?thesis using ih by (metis append_Cons append_Nil)
  next
    case 3
    with Cons.prems have "\<forall>x \<in> set t. k < fst x" by auto
    then have "filter (\<lambda>e. fst e < k) t = []" "filter (\<lambda>e. fst e = k) t = []" "filter (\<lambda>e. k < fst e) t = t"
      by (auto simp: filter_empty_conv filter_id_conv)
    with 3 show ?thesis by auto
  qed
qed

lemma lower_bound_sorted:
  "sorted (map fst t) \<Longrightarrow> lower_bound k t = length (filter (\<lambda>e. fst e < k) t)"
  by (simp add: lower_bound_def takeWhile_less_sorted)

lemma filter_not_greater:
  "filter (\<lambda>e. \<not> k < fst e) t = filter (\<lambda>e. fst e < k) (t::('k::linorder \<times> nat) list) @ filter (\<lambda>e. fst e = k) t"
  if "sorted (map fst t)"
proof -
  have "filter (\<lambda>e. \<not> k < fst e) t =
        filter (\<lambda>e. \<not> k < fst e) (filter (\<lambda>e. fst e < k) t @ filter (\<lambda>e. fst e = k) t @ filter (\<lambda>e. k < fst e) t)"
    using sorted_three_way [OF that, of k] by simp
  also have "\<dots> = filter (\<lambda>e. fst e < k) t @ filter (\<lambda>e. fst e = k) t"
    by (auto simp: filter_empty_conv intro!: filter_cong arg_cong2[where f="(@)"])
  finally show ?thesis .
qed

lemma upper_bound_sorted:
  "sorted (map fst t) \<Longrightarrow>
   upper_bound k t = length (filter (\<lambda>e. fst e < k) t) + length (filter (\<lambda>e. fst e = k) t)"
  by (simp add: upper_bound_def takeWhile_not_greater_sorted filter_not_greater)

lemma between_sorted:
  assumes "sorted (map fst t)"
  shows "between (lower_bound k t) (upper_bound k t) t = filter (\<lambda>e. fst e = k) t"
proof -
  define A where "A = filter (\<lambda>e. fst e < k) t"
  define B where "B = filter (\<lambda>e. fst e = k) t"
  define C where "C = filter (\<lambda>e. k < fst e) t"
  have t: "t = A @ B @ C"
    unfolding A_def B_def C_def by (rule sorted_three_way [OF assms])
  have "between (lower_bound k t) (upper_bound k t) t = take (length B) (drop (length A) t)"
    by (simp add: between_def lower_bound_sorted upper_bound_sorted assms A_def B_def)
  also have "\<dots> = take (length B) (drop (length A) (A @ B @ C))"
    using t by simp
  also have "\<dots> = B" by simp
  finally show ?thesis by (simp add: B_def)
qed

lemma erase_range_sorted:
  assumes "sorted (map fst t)"
  shows "multimap_erase_range (lower_bound k t) (upper_bound k t) t = filter (\<lambda>e. fst e \<noteq> k) t"
proof -
  define A where "A = filter (\<lambda>e. fst e < k) t"
  define B where "B = filter (\<lambda>e. fst e = k) t"
  define C where "C = filter (\<lambda>e. k < fst e) t"
  have t: "t = A @ B @ C"
    unfolding A_def B_def C_def by (rule sorted_three_way [OF assms])
  have "multimap_erase_range (lower_bound k t) (upper_bound k t) t
          = take (length A) t @ drop (length A + length B) t"
    by (simp add: multimap_erase_range_def lower_bound_sorted upper_bound_sorted assms A_def B_def)
  also have "\<dots> = take (length A) (A @ B @ C) @ drop (length A + length B) (A @ B @ C)"
    using t by simp
  also have "\<dots> = A @ C" by simp
  also have "\<dots> = filter (\<lambda>e. fst e \<noteq> k) A @ filter (\<lambda>e. fst e \<noteq> k) B @ filter (\<lambda>e. fst e \<noteq> k) C"
    by (auto simp: A_def B_def C_def filter_empty_conv intro!: filter_cong arg_cong2 [where f = "(@)"])
  also have "\<dots> = filter (\<lambda>e. fst e \<noteq> k) (A @ B @ C)" by simp
  also have "\<dots> = filter (\<lambda>e. fst e \<noteq> k) t" using t by simp
  finally show ?thesis .
qed

lemma equal_range_empty_iff:
  "sorted (map fst t) \<Longrightarrow> lower_bound k t = upper_bound k t \<longleftrightarrow> k \<notin> fst ` set t"
  by (auto simp: lower_bound_sorted upper_bound_sorted filter_empty_conv)

lemma count_sorted:
  "sorted (map fst t) \<Longrightarrow> upper_bound k t - lower_bound k t = length (filter (\<lambda>e. fst e = k) t)"
  by (simp add: lower_bound_sorted upper_bound_sorted)

lemma nth_lower_bound:
  assumes "sorted (map fst t)" and "k \<in> fst ` set t"
  shows "lower_bound k t < length t \<and> t ! lower_bound k t = hd (filter (\<lambda>e. fst e = k) t)"
proof -
  define A where "A = filter (\<lambda>e. fst e < k) t"
  define B where "B = filter (\<lambda>e. fst e = k) t"
  define C where "C = filter (\<lambda>e. k < fst e) t"
  have t: "t = A @ B @ C"
    unfolding A_def B_def C_def by (rule sorted_three_way [OF assms(1)])
  from assms(2) have B: "B \<noteq> []" by (auto simp: B_def filter_empty_conv)
  have lb: "lower_bound k t = length A" by (simp add: lower_bound_sorted assms A_def)
  have "length A < length (A @ B @ C)" using B by simp
  moreover have "(A @ B @ C) ! length A = hd B" using B by (simp add: nth_append hd_conv_nth)
  ultimately show ?thesis unfolding lb B_def [symmetric] using t by simp
qed

lemma multimap_find_sorted:
  assumes "sorted (map fst t)"
  shows "multimap_find k t = (if k \<in> fst ` set t then lower_bound k t else length t)"
proof (cases "k \<in> fst ` set t")
  case True
  from nth_lower_bound [OF assms True]
  have lt: "lower_bound k t < length t" and nth: "t ! lower_bound k t = hd (filter (\<lambda>e. fst e = k) t)"
    by simp_all
  from True have "filter (\<lambda>e. fst e = k) t \<noteq> []" by (auto simp: filter_empty_conv)
  then have "hd (filter (\<lambda>e. fst e = k) t) \<in> set (filter (\<lambda>e. fst e = k) t)" by (rule hd_in_set)
  then have "fst (t ! lower_bound k t) = k" using nth by simp
  with lt True show ?thesis by (simp add: multimap_find_def)
next
  case False
  have "lower_bound k t < length t \<Longrightarrow> k < fst (t ! lower_bound k t)"
  proof -
    assume lt: "lower_bound k t < length t"
    then have "\<not> fst (t ! lower_bound k t) < k"
      unfolding lower_bound_def by (rule nth_length_takeWhile)
    moreover have "fst (t ! lower_bound k t) \<noteq> k" using False lt by (metis image_eqI nth_mem)
    ultimately show ?thesis by simp
  qed
  with False show ?thesis by (auto simp: multimap_find_def Let_def)
qed

lemma multimap_erase_filter:
  "distinct (map snd t) \<Longrightarrow> i < length t \<Longrightarrow>
   multimap_erase i t = filter (\<lambda>e. snd e \<noteq> snd (t ! i)) t"
proof (induction t arbitrary: i)
  case Nil
  then show ?case by simp
next
  case (Cons e t)
  show ?case
  proof (cases i)
    case 0
    from Cons.prems have "snd e \<notin> snd ` set t" by simp
    then have "\<forall>x \<in> set t. snd x \<noteq> snd e" by (metis image_eqI)
    then have "filter (\<lambda>x. snd x \<noteq> snd e) t = t"
      by (simp add: filter_id_conv)
    with 0 show ?thesis by (simp add: multimap_erase_def)
  next
    case (Suc j)
    with Cons.prems have j: "j < length t" and d: "distinct (map snd t)" by simp_all
    from Cons.prems j have "snd e \<noteq> snd (t ! j)" by (metis distinct.simps(2) image_eqI list.simps(9) nth_mem set_map)
    with Cons.IH [OF d j] Suc show ?thesis by (simp add: multimap_erase_def)
  qed
qed

subsection \<open>Nodes and iterators\<close>

lemma from_node_Nil_iff: "from_node h ns = [] \<longleftrightarrow> h \<notin> set (handles ns)"
  by (induction ns) (auto simp: from_node_def handles_def)

lemma from_node_hd:
  "h \<in> set (handles ns) \<Longrightarrow> \<exists>n rest. from_node h ns = n # rest \<and> handle n = h \<and> n \<in> set ns"
  by (induction ns) (auto simp: from_node_def handles_def)

lemma deref_node:
  "distinct (handles ns) \<Longrightarrow> n \<in> set ns \<Longrightarrow> deref (It (handle n)) ns = Some (entry n)"
  by (induction ns) (auto simp: deref_def from_node_def handles_def)

lemma deref_Some_iff: "(\<exists>e. deref (It h) ns = Some e) \<longleftrightarrow> h \<in> set (handles ns)"
  using from_node_Nil_iff [of h ns]
  by (cases "from_node h ns") (auto simp: deref_def)

lemma std_next_defined: "h \<in> set (handles ns) \<Longrightarrow> \<exists>it. std_next (It h) ns = Some it"
  using from_node_hd [of h ns] by (auto simp: std_next_def)

lemma deref_filter_other:
  "h' \<noteq> h \<Longrightarrow> deref (It h') (filter (\<lambda>n. handle n \<noteq> h) ns) = deref (It h') ns"
  by (induction ns) (auto simp: deref_def from_node_def)

lemma set_handles_erase:
  "set (handles (filter (\<lambda>n. handle n \<noteq> h) ns)) = set (handles ns) - {h}"
  by (auto simp: handles_def)

subsection \<open>The loops over the index elements of a key\<close>

lemma update_loop_result:
  "set hs \<subseteq> set (handles ns) \<Longrightarrow>
   update_loop hs v ns =
     Some (map (\<lambda>n. if handle n \<in> set hs then (handle n, fst (entry n), v) else n) ns)"
proof (induction hs arbitrary: ns)
  case Nil
  then show ?case by simp
next
  case (Cons h hs)
  let ?f = "\<lambda>n. if handle n = h then (handle n, fst (entry n), v) else n"
  have hf: "handle (?f n) = handle n" for n :: "('a, 'b) node"
    by (simp add: handle_def)
  have kf: "fst (entry (?f n)) = fst (entry n)" for n :: "('a, 'b) node"
    by (simp add: entry_def)
  from Cons.prems have sv: "set_value h v ns = Some (map ?f ns)"
    by (simp add: set_value_def)
  have "handles (map ?f ns) = handles ns"
    unfolding handles_def map_map by (rule map_cong) (simp_all add: handle_def)
  with Cons.prems have "set hs \<subseteq> set (handles (map ?f ns))" by simp
  from Cons.IH [OF this] sv
  have "update_loop (h # hs) v ns =
        Some (map (\<lambda>n. if handle n \<in> set hs then (handle n, fst (entry n), v) else n) (map ?f ns))"
    by simp
  also have "map (\<lambda>n. if handle n \<in> set hs then (handle n, fst (entry n), v) else n) (map ?f ns)
      = map (\<lambda>n. if handle n \<in> set (h # hs) then (handle n, fst (entry n), v) else n) ns"
    unfolding map_map by (rule map_cong) (auto simp: handle_def entry_def)
  finally show ?case .
qed

lemma erase_loop_result:
  "distinct hs \<Longrightarrow> set hs \<subseteq> set (handles ns) \<Longrightarrow>
   \<exists>nxt'. erase_loop hs nxt ns = Some (nxt', filter (\<lambda>n. handle n \<notin> set hs) ns)"
proof (induction hs arbitrary: nxt ns)
  case Nil
  then show ?case by simp
next
  case (Cons h hs)
  from Cons.prems have h: "h \<in> set (handles ns)" by simp
  then obtain it where it: "std_next (It h) ns = Some it"
    using std_next_defined by blast
  define nxt1 where "nxt1 = (if nxt = End then it else nxt)"
  have step: "(if nxt = End then std_next (It h) ns else Some nxt) = Some nxt1"
    by (simp add: nxt1_def it)
  let ?ns = "filter (\<lambda>n. handle n \<noteq> h) ns"
  from h have er: "list_erase h ns = Some ?ns" by (simp add: list_erase_def)
  from Cons.prems have "distinct hs" and "set hs \<subseteq> set (handles ?ns)"
    unfolding set_handles_erase by auto
  from Cons.IH [OF this, of nxt1] obtain nxt' where
    "erase_loop hs nxt1 ?ns = Some (nxt', filter (\<lambda>n. handle n \<notin> set hs) ?ns)" by blast
  moreover have "filter (\<lambda>n. handle n \<notin> set hs) ?ns = filter (\<lambda>n. handle n \<notin> set (h # hs)) ns"
    by (auto intro: filter_cong)
  ultimately show ?case using step er by simp
qed

lemma extract_loop_result:
  "distinct hs \<Longrightarrow> set hs \<subseteq> set (handles ns) \<Longrightarrow>
   \<exists>vals. extract_loop hs acc ns = Some (acc @ vals, filter (\<lambda>n. handle n \<notin> set hs) ns) \<and>
          map Some vals = map (\<lambda>h. map_option snd (deref (It h) ns)) hs"
proof (induction hs arbitrary: acc ns)
  case Nil
  then show ?case by simp
next
  case (Cons h hs)
  from Cons.prems have h: "h \<in> set (handles ns)" by simp
  then obtain e where e: "deref (It h) ns = Some e"
    using deref_Some_iff by blast
  let ?ns = "filter (\<lambda>n. handle n \<noteq> h) ns"
  from h have er: "list_erase h ns = Some ?ns" by (simp add: list_erase_def)
  from Cons.prems have d: "distinct hs" and s: "set hs \<subseteq> set (handles ?ns)" and nh: "h \<notin> set hs"
    unfolding set_handles_erase by auto
  from Cons.IH [OF d s, of "acc @ [snd e]"] obtain vals where
    v1: "extract_loop hs (acc @ [snd e]) ?ns
          = Some ((acc @ [snd e]) @ vals, filter (\<lambda>n. handle n \<notin> set hs) ?ns)"
    and v2: "map Some vals = map (\<lambda>h. map_option snd (deref (It h) ?ns)) hs"
    by blast
  have f: "filter (\<lambda>n. handle n \<notin> set hs) ?ns = filter (\<lambda>n. handle n \<notin> set (h # hs)) ns"
    by (auto intro: filter_cong)
  have "map (\<lambda>h. map_option snd (deref (It h) ?ns)) hs = map (\<lambda>h. map_option snd (deref (It h) ns)) hs"
    using nh by (intro map_cong refl) (metis deref_filter_other)
  with v2 e have "map Some (snd e # vals) = map (\<lambda>h. map_option snd (deref (It h) ns)) (h # hs)"
    by simp
  moreover from v1 e er f
  have "extract_loop (h # hs) acc ns = Some (acc @ (snd e # vals), filter (\<lambda>n. handle n \<notin> set (h # hs)) ns)"
    by simp
  ultimately show ?case by blast
qed

subsection \<open>Consequences of consistency\<close>

lemma consistent_inj: "consistent m \<Longrightarrow> inj_on handle (set (list_nodes m))"
  by (simp add: consistent_def handles_def distinct_map)

lemma set_index_handles:
  assumes "consistent m"
  shows "set (index_handles k m) = handle ` set (nodes_with k m)"
proof -
  from assms have t: "set (table m) = (\<lambda>n. (key_of n, handle n)) ` set (list_nodes m)"
    by (simp add: consistent_def)
  have "set (index_handles k m) = snd ` {e \<in> set (table m). fst e = k}"
    by (simp add: index_handles_def)
  also have "\<dots> = snd ` {e \<in> (\<lambda>n. (key_of n, handle n)) ` set (list_nodes m). fst e = k}"
    by (simp only: t)
  also have "\<dots> = handle ` {n \<in> set (list_nodes m). key_of n = k}"
    by (auto simp: image_iff)
  finally show ?thesis by (simp add: nodes_with_def)
qed

lemma distinct_index_handles: "consistent m \<Longrightarrow> distinct (index_handles k m)"
  by (simp add: consistent_def index_handles_def distinct_map_filter)

lemma index_handles_subset:
  "consistent m \<Longrightarrow> set (index_handles k m) \<subseteq> set (handles (list_nodes m))"
  by (auto simp: set_index_handles nodes_with_def handles_def)

lemma handle_in_index:
  assumes "consistent m" and "n \<in> set (list_nodes m)"
  shows "handle n \<in> set (index_handles k m) \<longleftrightarrow> key_of n = k"
proof
  assume "handle n \<in> set (index_handles k m)"
  then obtain n' where n': "n' \<in> set (list_nodes m)" "key_of n' = k" "handle n' = handle n"
    by (auto simp: set_index_handles [OF assms(1)] nodes_with_def)
  with consistent_inj [OF assms(1)] assms(2) have "n' = n" by (auto dest: inj_onD)
  with n' show "key_of n = k" by simp
next
  assume "key_of n = k"
  with assms show "handle n \<in> set (index_handles k m)"
    by (auto simp: set_index_handles nodes_with_def)
qed

lemma element_in_index:
  assumes "consistent m" and "e \<in> set (table m)"
  shows "snd e \<in> set (index_handles k m) \<longleftrightarrow> fst e = k"
proof -
  from assms obtain n where n: "n \<in> set (list_nodes m)" "e = (key_of n, handle n)"
    by (auto simp: consistent_def)
  with handle_in_index [OF assms(1) n(1), of k] show ?thesis by simp
qed

lemma filter_snd_unique:
  "distinct (map snd t) \<Longrightarrow> (k, h) \<in> set t \<Longrightarrow> filter (\<lambda>e. snd e = h) t = [(k, h)]"
proof (induction t)
  case Nil
  then show ?case by simp
next
  case (Cons e t)
  show ?case
  proof (cases "e = (k, h)")
    case True
    with Cons.prems have "h \<notin> snd ` set t" by simp
    then have "\<forall>x \<in> set t. snd x \<noteq> h" by (metis image_eqI)
    then have "filter (\<lambda>e. snd e = h) t = []" by (simp add: filter_empty_conv)
    with True show ?thesis by simp
  next
    case False
    with Cons.prems have mem: "(k, h) \<in> set t" and d: "distinct (map snd t)"
      and "snd e \<notin> snd ` set t" by simp_all
    then have "snd e \<noteq> h" by (metis image_eqI snd_conv)
    with Cons.IH [OF d mem] show ?thesis by simp
  qed
qed

lemma consistent_one_to_one:
  assumes "consistent m"
  shows "one_to_one m"
proof -
  have a: "map fst (filter (\<lambda>e. snd e = handle n) (table m)) = [key_of n]"
    if n: "n \<in> set (list_nodes m)" for n
  proof -
    from assms n have mem: "(key_of n, handle n) \<in> set (table m)"
      by (auto simp: consistent_def)
    from assms have d: "distinct (map snd (table m))" by (simp add: consistent_def)
    have "filter (\<lambda>e. snd e = handle n) (table m) = [(key_of n, handle n)]"
      using d mem by (rule filter_snd_unique)
    then show ?thesis by simp
  qed
  have b: "map_option fst (deref (It (snd e)) (list_nodes m)) = Some (fst e)"
    if e: "e \<in> set (table m)" for e
  proof -
    from assms e obtain n where n: "n \<in> set (list_nodes m)" "e = (key_of n, handle n)"
      by (auto simp: consistent_def)
    from assms have "distinct (handles (list_nodes m))" by (simp add: consistent_def)
    from deref_node [OF this n(1)] n(2) show ?thesis by (simp add: key_of_def)
  qed
  from a b show ?thesis by (simp add: one_to_one_def)
qed

subsection \<open>Removal of entries\<close>

lemma without_empty: "without {} m = m"
  by (simp add: without_def)

lemma consistent_without: "consistent m \<Longrightarrow> consistent (without H m)"
  unfolding consistent_def without_def
  by (auto simp: handles_def distinct_map_filter sorted_filter)

lemma index_handles_without:
  "index_handles k (without H m) = filter (\<lambda>h. h \<notin> H) (index_handles k m)"
  by (simp add: index_handles_def without_def filter_map comp_def conj_commute)

lemma nodes_with_without:
  "handles (nodes_with k (without H m)) = filter (\<lambda>h. h \<notin> H) (handles (nodes_with k m))"
  by (simp add: nodes_with_def without_def handles_def filter_map comp_def conj_commute)

lemma order_without:
  "index_in_sequence_order k m \<Longrightarrow> index_in_sequence_order k (without H m)"
  by (simp add: index_in_sequence_order_def index_handles_without nodes_with_without)

lemma without_key_nodes:
  assumes "consistent m"
  shows "list_nodes (without (set (index_handles k m)) m) = filter (\<lambda>n. key_of n \<noteq> k) (list_nodes m)"
  unfolding without_def using handle_in_index [OF assms]
  by (auto intro: filter_cong)

lemma without_key_table:
  assumes "consistent m"
  shows "table (without (set (index_handles k m)) m) = filter (\<lambda>e. fst e \<noteq> k) (table m)"
  unfolding without_def using element_in_index [OF assms]
  by (auto intro: filter_cong)

subsection \<open>Lookup\<close>

lemma between_index_handles:
  "consistent m \<Longrightarrow>
   map snd (between (lower_bound k (table m)) (upper_bound k (table m)) (table m)) = index_handles k m"
  by (simp add: consistent_def between_sorted index_handles_def)

lemma index_handles_Nil_iff: "index_handles k m = [] \<longleftrightarrow> k \<notin> fst ` set (table m)"
  by (auto simp: index_handles_def filter_empty_conv image_iff)

lemma range_empty_iff:
  assumes "consistent m"
  shows "lower_bound k (table m) = upper_bound k (table m) \<longleftrightarrow> index_handles k m = []"
proof -
  from assms have s: "sorted (map fst (table m))" by (simp add: consistent_def)
  show ?thesis
    unfolding index_handles_Nil_iff by (rule equal_range_empty_iff [OF s])
qed

lemma has_iff:
  assumes "consistent m"
  shows "has k m \<longleftrightarrow> index_handles k m \<noteq> []"
proof -
  from assms have s: "sorted (map fst (table m))" by (simp add: consistent_def)
  show ?thesis
  proof (cases "k \<in> fst ` set (table m)")
    case True
    from nth_lower_bound [OF s True] have "lower_bound k (table m) \<noteq> length (table m)"
      by simp
    with True show ?thesis
      by (simp add: has_def multimap_find_sorted [OF s] index_handles_Nil_iff)
  next
    case False
    then show ?thesis
      by (simp add: has_def multimap_find_sorted [OF s] index_handles_Nil_iff)
  qed
qed

lemma count_omm_eq: "consistent m \<Longrightarrow> count_omm k m = length (index_handles k m)"
  by (simp add: count_omm_def multimap_equal_range_def consistent_def count_sorted index_handles_def)

lemma first_index_handle:
  assumes "consistent m" and "index_handles k m \<noteq> []"
  shows "snd (table m ! lower_bound k (table m)) = hd (index_handles k m)"
proof -
  from assms(1) have s: "sorted (map fst (table m))" by (simp add: consistent_def)
  from assms(2) have k: "k \<in> fst ` set (table m)"
    by (simp add: index_handles_Nil_iff)
  from assms(2) have ne: "filter (\<lambda>e. fst e = k) (table m) \<noteq> []"
    by (auto simp: index_handles_def)
  from nth_lower_bound [OF s k] ne show ?thesis
    by (simp add: index_handles_def hd_map)
qed

subsection \<open>Insertion\<close>

lemma emplace_insert: "emplace k v m = insert_omm k v m"
  by (simp add: emplace_def insert_omm_def)

lemma consistent_insert:
  assumes "consistent m"
  shows "consistent (snd (insert_omm k v m))"
proof -
  let ?h = "next_addr m"
  from assms have fresh: "?h \<notin> set (handles (list_nodes m))" by (auto simp: consistent_def)
  from assms have t: "set (table m) = (\<lambda>n. (key_of n, handle n)) ` set (list_nodes m)"
    by (simp add: consistent_def)
  have "snd ` set (table m) = set (handles (list_nodes m))"
    unfolding t by (simp add: image_image handles_def)
  with fresh have ft: "?h \<notin> snd ` set (table m)" by simp
  have 1: "distinct (handles (list_nodes m @ [(?h, k, v)]))"
    using assms fresh by (simp add: consistent_def handles_def handle_def)
  have 2: "sorted (map fst (multimap_insert k ?h (table m)))"
    using assms by (simp add: consistent_def sorted_multimap_insert)
  have 3: "distinct (map snd (multimap_insert k ?h (table m)))"
    using assms ft by (simp add: consistent_def distinct_multimap_insert)
  have 4: "set (multimap_insert k ?h (table m)) =
           (\<lambda>n. (key_of n, handle n)) ` set (list_nodes m @ [(?h, k, v)])"
    by (simp add: set_multimap_insert t key_of_def entry_def handle_def)
  have 5: "\<forall>h \<in> set (handles (list_nodes m @ [(?h, k, v)])). h < Suc ?h"
    using assms by (auto simp: consistent_def handles_def handle_def less_Suc_eq)
  from 1 2 3 4 5 show ?thesis
    by (simp add: consistent_def insert_omm_def Let_def)
qed

lemma order_insert:
  assumes "consistent m" and "index_in_sequence_order k' m"
  shows "index_in_sequence_order k' (snd (insert_omm k v m))"
proof -
  from assms(1) have s: "sorted (map fst (table m))" by (simp add: consistent_def)
  show ?thesis
    using assms(2)
    by (auto simp: index_in_sequence_order_def index_handles_def nodes_with_def insert_omm_def
        Let_def filter_key_multimap_insert [OF s] handles_def key_of_def entry_def handle_def)
qed

lemma to_vector_insert: "to_vector (snd (insert_omm k v m)) = to_vector m @ [(k, v)]"
  by (simp add: to_vector_def insert_omm_def Let_def entry_def)

lemma merge_loop_step:
  "merge_loop (n # ns) m = merge_loop ns (snd (insert_omm (fst (entry n)) (snd (entry n)) m))"
  by (simp add: insert_omm_def Let_def)

lemma consistent_merge_loop: "consistent m \<Longrightarrow> consistent (merge_loop ns m)"
proof (induction ns arbitrary: m)
  case Nil
  then show ?case by simp
next
  case (Cons n ns)
  from Cons.IH [OF consistent_insert [OF Cons.prems]] show ?case
    by (simp only: merge_loop_step)
qed

lemma order_merge_loop:
  "consistent m \<Longrightarrow> index_in_sequence_order k m \<Longrightarrow> index_in_sequence_order k (merge_loop ns m)"
proof (induction ns arbitrary: m)
  case Nil
  then show ?case by simp
next
  case (Cons n ns)
  from Cons.IH [OF consistent_insert [OF Cons.prems(1)] order_insert [OF Cons.prems]] show ?case
    by (simp only: merge_loop_step)
qed

lemma to_vector_merge_loop: "to_vector (merge_loop ns m) = to_vector m @ map entry ns"
proof (induction ns arbitrary: m)
  case Nil
  then show ?case by simp
next
  case (Cons n ns)
  show ?case
    unfolding merge_loop_step Cons.IH to_vector_insert by simp
qed

lemma consistent_clear: "consistent (clear m)"
  by (simp add: consistent_def clear_def handles_def)

lemma order_clear: "index_in_sequence_order k (clear m)"
  by (simp add: index_in_sequence_order_def clear_def index_handles_def nodes_with_def handles_def)

subsection \<open>Update\<close>

lemma update_absent:
  assumes "consistent m" and "index_handles k m = []"
  shows "update k v m = Some (insert_omm k v m)"
  using range_empty_iff [OF assms(1), of k] assms(2)
  by (simp add: update_def multimap_equal_range_def)

lemma update_present:
  assumes "consistent m" and "index_handles k m \<noteq> []"
  shows "update k v m =
         Some (It (hd (index_handles k m)),
               m\<lparr>list_nodes := map (\<lambda>n. if key_of n = k then (handle n, k, v) else n) (list_nodes m)\<rparr>)"
proof -
  from range_empty_iff [OF assms(1), of k] assms(2)
  have ne: "lower_bound k (table m) \<noteq> upper_bound k (table m)" by simp
  have "update_loop (index_handles k m) v (list_nodes m) =
        Some (map (\<lambda>n. if handle n \<in> set (index_handles k m) then (handle n, fst (entry n), v) else n)
               (list_nodes m))"
    by (rule update_loop_result [OF index_handles_subset [OF assms(1)]])
  also have "map (\<lambda>n. if handle n \<in> set (index_handles k m) then (handle n, fst (entry n), v) else n)
               (list_nodes m)
           = map (\<lambda>n. if key_of n = k then (handle n, k, v) else n) (list_nodes m)"
    using handle_in_index [OF assms(1)]
    by (intro map_cong refl) (auto simp: key_of_def)
  finally show ?thesis
    using ne
    by (simp add: update_def multimap_equal_range_def between_index_handles [OF assms(1)]
        first_index_handle [OF assms])
qed

lemma handles_set_values:
  "handles (map (\<lambda>n. if key_of n = k then (handle n, k, v) else n) ns) = handles ns"
  unfolding handles_def map_map by (rule map_cong) (simp_all add: handle_def)

lemma consistent_set_values:
  assumes "consistent m"
  shows "consistent (m\<lparr>list_nodes := map (\<lambda>n. if key_of n = k then (handle n, k, v) else n) (list_nodes m)\<rparr>)"
proof -
  let ?f = "\<lambda>n::('a, 'b) node. if key_of n = k then (handle n, k, v) else n"
  have "(\<lambda>n. (key_of n, handle n)) ` set (map ?f (list_nodes m))
        = (\<lambda>n. (key_of n, handle n)) ` set (list_nodes m)"
    unfolding set_map image_image
    by (rule image_cong) (auto simp: key_of_def entry_def handle_def)
  with assms show ?thesis
    by (simp add: consistent_def handles_set_values)
qed

lemma order_set_values:
  assumes "index_in_sequence_order k' m"
  shows "index_in_sequence_order k'
    (m\<lparr>list_nodes := map (\<lambda>n. if key_of n = k then (handle n, k, v) else n) (list_nodes m)\<rparr>)"
proof -
  let ?f = "\<lambda>n::('a, 'b) node. if key_of n = k then (handle n, k, v) else n"
  have "handles (filter (\<lambda>n. key_of n = k') (map ?f ns)) = handles (filter (\<lambda>n. key_of n = k') ns)"
    for ns :: "('a, 'b) node list"
    by (induction ns) (auto simp: handles_def key_of_def entry_def handle_def)
  with assms show ?thesis
    by (simp add: index_in_sequence_order_def nodes_with_def index_handles_def)
qed

subsection \<open>Erasure\<close>

lemma without_index_handles_eq:
  assumes "consistent m"
  shows "m\<lparr>list_nodes := filter (\<lambda>n. handle n \<notin> set (index_handles k m)) (list_nodes m),
           table := multimap_erase_range (lower_bound k (table m)) (upper_bound k (table m)) (table m)\<rparr>
         = without (set (index_handles k m)) m"
proof -
  from assms have s: "sorted (map fst (table m))" by (simp add: consistent_def)
  have "filter (\<lambda>e. fst e \<noteq> k) (table m) = filter (\<lambda>e. snd e \<notin> set (index_handles k m)) (table m)"
    using element_in_index [OF assms] by (auto intro: filter_cong)
  then show ?thesis
    by (simp add: without_def erase_range_sorted [OF s])
qed

lemma erase_key_result:
  assumes "consistent m"
  shows "\<exists>it. erase_key k m = Some (it, without (set (index_handles k m)) m)"
proof (cases "index_handles k m = []")
  case True
  with range_empty_iff [OF assms, of k] show ?thesis
    by (simp add: erase_key_def multimap_equal_range_def without_empty)
next
  case False
  with range_empty_iff [OF assms, of k]
  have ne: "lower_bound k (table m) \<noteq> upper_bound k (table m)" by simp
  from erase_loop_result [OF distinct_index_handles [OF assms] index_handles_subset [OF assms], of k End]
  obtain nxt where "erase_loop (index_handles k m) End (list_nodes m) =
      Some (nxt, filter (\<lambda>n. handle n \<notin> set (index_handles k m)) (list_nodes m))"
    by blast
  with ne show ?thesis
    by (simp add: erase_key_def multimap_equal_range_def between_index_handles [OF assms]
        without_index_handles_eq [OF assms])
qed

lemma extract_result:
  assumes "consistent m"
  shows "\<exists>vals. extract_omm k m = Some (vals, without (set (index_handles k m)) m) \<and>
           map Some vals = map (\<lambda>h. map_option snd (deref (It h) (list_nodes m))) (index_handles k m)"
proof -
  from extract_loop_result [OF distinct_index_handles [OF assms] index_handles_subset [OF assms], of k "[]"]
  obtain vals where
    "extract_loop (index_handles k m) [] (list_nodes m) =
       Some (vals, filter (\<lambda>n. handle n \<notin> set (index_handles k m)) (list_nodes m))"
    and "map Some vals = map (\<lambda>h. map_option snd (deref (It h) (list_nodes m))) (index_handles k m)"
    by auto
  then show ?thesis
    by (simp add: extract_omm_def multimap_equal_range_def between_index_handles [OF assms]
        without_index_handles_eq [OF assms])
qed

lemma erase_at_without:
  assumes "consistent m" and "i < length (table m)"
    and "list_erase (snd (table m ! i)) (list_nodes m) = Some ns"
  shows "m\<lparr>list_nodes := ns, table := multimap_erase i (table m)\<rparr> = without {snd (table m ! i)} m"
proof -
  from assms(1) have d: "distinct (map snd (table m))" by (simp add: consistent_def)
  from assms(3) have "ns = filter (\<lambda>n. handle n \<noteq> snd (table m ! i)) (list_nodes m)"
    by (auto simp: list_erase_def split: if_splits)
  then show ?thesis
    by (simp add: without_def multimap_erase_filter [OF d assms(2)])
qed

lemma multimap_find_less: "multimap_find k t \<noteq> length t \<Longrightarrow> multimap_find k t < length t"
  by (auto simp: multimap_find_def Let_def split: if_splits)

lemma erase_iterator_without:
  assumes "consistent m" and "erase_iterator it m = Some (r, m')"
  shows "\<exists>H. m' = without H m"
proof -
  from assms(2) obtain e where e: "deref it (list_nodes m) = Some e"
    by (auto simp: erase_iterator_def split: option.splits)
  let ?i = "multimap_find (fst e) (table m)"
  show ?thesis
  proof (cases "?i = length (table m)")
    case True
    with assms(2) e have "m' = m" by (simp add: erase_iterator_def)
    then show ?thesis using without_empty by metis
  next
    case False
    then have i: "?i < length (table m)" by (rule multimap_find_less)
    from assms(2) e False obtain ns where
      ns: "list_erase (snd (table m ! ?i)) (list_nodes m) = Some ns"
      and m': "m' = m\<lparr>list_nodes := ns, table := multimap_erase ?i (table m)\<rparr>"
      by (auto simp: erase_iterator_def Let_def split: option.splits)
    from erase_at_without [OF assms(1) i ns] m' show ?thesis by blast
  qed
qed

lemma erase_value_loop_without:
  "consistent m \<Longrightarrow> i + n \<le> length (table m) \<Longrightarrow> erase_value_loop i n v m = Some (c, m') \<Longrightarrow>
   \<exists>H. m' = without H m"
proof (induction n arbitrary: i)
  case 0
  then have "m' = m" by simp
  then show ?case using without_empty by metis
next
  case (Suc n)
  from Suc.prems(3) obtain e where e: "deref (It (snd (table m ! i))) (list_nodes m) = Some e"
    by (auto split: option.splits)
  show ?case
  proof (cases "snd e = v")
    case True
    from Suc.prems(2) have i: "i < length (table m)" by simp
    from Suc.prems(3) e True obtain ns where
      ns: "list_erase (snd (table m ! i)) (list_nodes m) = Some ns"
      and m': "m' = m\<lparr>list_nodes := ns, table := multimap_erase i (table m)\<rparr>"
      by (auto split: option.splits)
    from erase_at_without [OF Suc.prems(1) i ns] m' show ?thesis by blast
  next
    case False
    with Suc.prems(3) e have "erase_value_loop (Suc i) n v m = Some (c, m')" by simp
    moreover from Suc.prems(2) have "Suc i + n \<le> length (table m)" by simp
    ultimately show ?thesis using Suc.IH Suc.prems(1) by blast
  qed
qed

lemma erase_key_value_without:
  assumes "consistent m" and "erase_key_value k v m = Some (c, m')"
  shows "\<exists>H. m' = without H m"
proof -
  have "lower_bound k (table m) \<le> length (table m)" "upper_bound k (table m) \<le> length (table m)"
    by (simp_all add: lower_bound_def upper_bound_def length_takeWhile_le)
  then have "lower_bound k (table m) + (upper_bound k (table m) - lower_bound k (table m))
             \<le> length (table m)" by arith
  from erase_value_loop_without [OF assms(1) this] assms(2) show ?thesis
    by (simp add: erase_key_value_def multimap_equal_range_def)
qed

subsection \<open>Sorting\<close>

lemma set_insort_by: "set (insort_by lt x ys) = insert x (set ys)"
  by (induction ys) auto

lemma distinct_insort_by:
  "distinct (handles (insort_by lt x ys)) \<longleftrightarrow> handle x \<notin> set (handles ys) \<and> distinct (handles ys)"
  by (induction ys) (auto simp: handles_def set_insort_by)

lemma set_list_sort: "set (list_sort lt ns) = set ns"
  by (induction ns) (simp_all add: list_sort_def set_insort_by)

lemma distinct_list_sort: "distinct (handles (list_sort lt ns)) \<longleftrightarrow> distinct (handles ns)"
proof (induction ns)
  case Nil
  then show ?case by (simp add: list_sort_def)
next
  case (Cons n ns)
  have "set (handles (list_sort lt ns)) = set (handles ns)"
    by (simp add: handles_def set_list_sort)
  with Cons show ?case
    using distinct_insort_by [of lt n "list_sort lt ns"]
    by (simp add: list_sort_def handles_def)
qed

lemma consistent_sort: "consistent m \<Longrightarrow> consistent (sort_omm f m)"
  by (simp add: consistent_def sort_omm_def distinct_list_sort set_list_sort handles_def
      del: distinct_map) (simp add: handles_def [symmetric] distinct_list_sort)

subsection \<open>Sequences of operations\<close>

lemma consistent_empty: "consistent empty_omm"
  by (simp add: consistent_def empty_omm_def handles_def)

lemma order_empty: "index_in_sequence_order k empty_omm"
  by (simp add: index_in_sequence_order_def empty_omm_def index_handles_def nodes_with_def handles_def)

lemma update_cases:
  assumes "consistent m" and "update k v m = Some (it, m')"
  shows "m' = snd (insert_omm k v m) \<or>
         m' = m\<lparr>list_nodes := map (\<lambda>n. if key_of n = k then (handle n, k, v) else n) (list_nodes m)\<rparr>"
proof (cases "index_handles k m = []")
  case True
  have "update k v m = Some (insert_omm k v m)" by (rule update_absent [OF assms(1) True])
  with assms(2) have "insert_omm k v m = (it, m')" by simp
  then show ?thesis by simp
next
  case False
  have "update k v m =
         Some (It (hd (index_handles k m)),
               m\<lparr>list_nodes := map (\<lambda>n. if key_of n = k then (handle n, k, v) else n) (list_nodes m)\<rparr>)"
    by (rule update_present [OF assms(1) False])
  with assms(2) show ?thesis by simp
qed

lemma consistent_update:
  assumes "consistent m" and "update k v m = Some (it, m')"
  shows "consistent m'"
  using update_cases [OF assms] consistent_insert [OF assms(1), of k v]
    consistent_set_values [OF assms(1), of k v]
  by (elim disjE) simp_all

lemma order_update:
  assumes "consistent m" and "index_in_sequence_order k' m" and "update k v m = Some (it, m')"
  shows "index_in_sequence_order k' m'"
  using update_cases [OF assms(1,3)] order_insert [OF assms(1,2), of k v]
    order_set_values [OF assms(2), of k v]
  by (elim disjE) simp_all

lemma apply_operation_shape:
  assumes "consistent m" and "apply_operation c m = Some m'"
  shows "(\<exists>H. m' = without H m) \<or> (\<exists>k v. m' = snd (insert_omm k v m)) \<or>
         (\<exists>k v it. update k v m = Some (it, m')) \<or> m' = clear m \<or>
         (\<exists>f. c = Sort f \<and> m' = sort_omm f m) \<or> (\<exists>ns. m' = merge_loop ns m) \<or>
         (\<exists>ns. m' = merge_loop ns (clear m))"
proof (cases c)
  case (Insert k v)
  with assms(2) show ?thesis by auto
next
  case (Emplace k v)
  with assms(2) show ?thesis by (auto simp: emplace_insert)
next
  case (Update k v)
  with assms(2) show ?thesis by auto
next
  case (Erase_key k)
  with assms(2) erase_key_result [OF assms(1), of k] show ?thesis by auto
next
  case (Erase_iterator it)
  with assms(2) erase_iterator_without [OF assms(1)] show ?thesis by auto
next
  case (Erase_key_value k v)
  with assms(2) erase_key_value_without [OF assms(1)] show ?thesis by auto
next
  case (Extract k)
  with assms(2) extract_result [OF assms(1), of k] show ?thesis by auto
next
  case Clear
  with assms(2) show ?thesis by auto
next
  case (Sort f)
  with assms(2) show ?thesis by auto
next
  case (Merge other)
  with assms(2) show ?thesis by (auto simp: merge_def)
next
  case (Assign other)
  with assms(2) show ?thesis by (auto simp: assign_def)
qed

lemma apply_operation_consistent:
  assumes "consistent m" and "apply_operation c m = Some m'"
  shows "consistent m'"
  using apply_operation_shape [OF assms] assms(1)
  by (auto simp: consistent_without consistent_insert consistent_clear consistent_sort
      consistent_merge_loop dest: consistent_update)

lemma run_consistent: "consistent m \<Longrightarrow> run cs m = Some m' \<Longrightarrow> consistent m'"
proof (induction cs arbitrary: m)
  case Nil
  then show ?case by simp
next
  case (Cons c cs)
  from Cons.prems(2) obtain m1 where m1: "apply_operation c m = Some m1" and r: "run cs m1 = Some m'"
    by (auto split: option.splits)
  from Cons.IH [OF apply_operation_consistent [OF Cons.prems(1) m1] r] show ?case .
qed

lemma apply_operation_order:
  assumes "consistent m" and "apply_operation c m = Some m'" and "\<not> is_sort c"
    and "\<And>k. index_in_sequence_order k m"
  shows "index_in_sequence_order k m'"
  using apply_operation_shape [OF assms(1,2)] assms(1,3,4)
  by (auto simp: order_without order_insert order_clear order_merge_loop consistent_clear
      dest: order_update)

lemma run_order:
  "consistent m \<Longrightarrow> (\<And>k. index_in_sequence_order k m) \<Longrightarrow> \<forall>c \<in> set cs. \<not> is_sort c \<Longrightarrow>
   run cs m = Some m' \<Longrightarrow> index_in_sequence_order k m'"
proof (induction cs arbitrary: m)
  case Nil
  then show ?case by simp
next
  case (Cons c cs)
  from Cons.prems(4) obtain m1 where m1: "apply_operation c m = Some m1" and r: "run cs m1 = Some m'"
    by (auto split: option.splits)
  from Cons.prems(3) have c: "\<not> is_sort c" and cs: "\<forall>c \<in> set cs. \<not> is_sort c" by simp_all
  have "index_in_sequence_order k' m1" for k'
    using apply_operation_order [OF Cons.prems(1) m1 c] Cons.prems(2) by blast
  from Cons.IH [OF apply_operation_consistent [OF Cons.prems(1) m1] this cs r] show ?case .
qed

subsection \<open>The order of the index elements of a key\<close>

text \<open>
  Addresses are handed out in the order of the insertions, and an insertion puts its
  index element behind the elements of the same key: the index elements of a key are
  ascending by address, whatever operations follow, a sort included.
\<close>

lemma index_handles_insert:
  assumes "consistent m"
  shows "index_handles k' (snd (insert_omm k v m)) =
         index_handles k' m @ (if k = k' then [next_addr m] else [])"
proof -
  from assms have s: "sorted (map fst (table m))" by (simp add: consistent_def)
  show ?thesis
    by (simp add: index_handles_def insert_omm_def Let_def filter_key_multimap_insert [OF s])
qed

lemma index_handles_below:
  assumes "consistent m" and "h \<in> set (index_handles k m)"
  shows "h < next_addr m"
proof -
  from index_handles_subset [OF assms(1)] assms(2) have "h \<in> set (handles (list_nodes m))"
    by blast
  with assms(1) show ?thesis by (simp add: consistent_def)
qed

lemma insertion_order_insert:
  assumes "consistent m" and "sorted (index_handles k' m)"
  shows "sorted (index_handles k' (snd (insert_omm k v m)))"
proof -
  have "\<forall>h \<in> set (index_handles k' m). h \<le> next_addr m"
    using index_handles_below [OF assms(1)] by (auto intro: less_imp_le)
  with assms(2) show ?thesis
    by (simp add: index_handles_insert [OF assms(1)] sorted_append)
qed

lemma insertion_order_without:
  "sorted (index_handles k m) \<Longrightarrow> sorted (index_handles k (without H m))"
  by (simp add: index_handles_without sorted_wrt_filter)

lemma index_handles_list_update: "index_handles k (m\<lparr>list_nodes := ns\<rparr>) = index_handles k m"
  by (simp add: index_handles_def)

lemma insertion_order_merge_loop:
  "consistent m \<Longrightarrow> sorted (index_handles k m) \<Longrightarrow> sorted (index_handles k (merge_loop ns m))"
proof (induction ns arbitrary: m)
  case Nil
  then show ?case by simp
next
  case (Cons n ns)
  from Cons.IH [OF consistent_insert [OF Cons.prems(1)] insertion_order_insert [OF Cons.prems]]
  show ?case by (simp only: merge_loop_step)
qed

lemma insertion_order_clear: "sorted (index_handles k (clear m))"
  by (simp add: index_handles_def clear_def)

lemma insertion_order_update:
  assumes "consistent m" and "sorted (index_handles k' m)" and "update k v m = Some (it, m')"
  shows "sorted (index_handles k' m')"
  using update_cases [OF assms(1,3)] insertion_order_insert [OF assms(1,2), of k v] assms(2)
  by (elim disjE) (simp_all add: index_handles_list_update)

lemma apply_operation_insertion_order:
  assumes "consistent m" and "apply_operation c m = Some m'"
    and "\<And>k. sorted (index_handles k m)"
  shows "sorted (index_handles k m')"
  using apply_operation_shape [OF assms(1,2)] assms(1,3)
  by (auto simp: insertion_order_without insertion_order_insert insertion_order_clear
      insertion_order_merge_loop consistent_clear sort_omm_def index_handles_list_update
      dest: insertion_order_update)

lemma run_insertion_order:
  "consistent m \<Longrightarrow> (\<And>k. sorted (index_handles k m)) \<Longrightarrow> run cs m = Some m' \<Longrightarrow>
   sorted (index_handles k m')"
proof (induction cs arbitrary: m)
  case Nil
  then show ?case by simp
next
  case (Cons c cs)
  from Cons.prems(3) obtain m1 where m1: "apply_operation c m = Some m1" and r: "run cs m1 = Some m'"
    by (auto split: option.splits)
  have "sorted (index_handles k' m1)" for k'
    using apply_operation_insertion_order [OF Cons.prems(1) m1] Cons.prems(2) by blast
  from Cons.IH [OF apply_operation_consistent [OF Cons.prems(1) m1] this r] show ?case .
qed

lemma insertion_order_empty: "sorted (index_handles k empty_omm)"
  by (simp add: index_handles_def empty_omm_def)

subsection \<open>Traversal and insertion sequences\<close>

lemma walk_until_End: "walk_until End ns = Some (map entry ns)"
  by (induction ns) simp_all

lemma iterate_all: "iterate (list_begin ns) End ns = Some (map entry ns)"
proof (cases ns)
  case Nil
  then show ?thesis by (simp add: iterate_def list_begin_def)
next
  case (Cons n rest)
  have "from_node (handle n) (n # rest) = n # rest" by (simp add: from_node_def)
  with Cons walk_until_End [of "n # rest"] show ?thesis
    by (simp add: iterate_def list_begin_def)
qed

lemma forward_iteration_eq: "forward_iteration m = Some (to_vector m)"
  by (simp add: forward_iteration_def begin_omm_def end_omm_def iterate_all to_vector_def)

lemma reverse_iteration_eq: "reverse_iteration m = Some (rev (to_vector m))"
  by (simp add: reverse_iteration_def iterate_all to_vector_def rev_map)

lemma call_insertion_insert: "call_insertion c m = snd (insert_omm (fst (inserted c)) (snd (inserted c)) m)"
  by (cases c) (simp_all add: emplace_insert)

lemma consistent_call_insertions: "consistent m \<Longrightarrow> consistent (call_insertions cs m)"
  unfolding call_insertions_def
  by (induction cs arbitrary: m) (simp_all add: call_insertion_insert consistent_insert)

lemma to_vector_call_insertions:
  "to_vector (call_insertions cs m) = to_vector m @ map inserted cs"
  unfolding call_insertions_def
  by (induction cs arbitrary: m) (simp_all add: call_insertion_insert to_vector_insert)

lemma from_node_new:
  "h \<notin> set (handles ns) \<Longrightarrow> from_node h (ns @ [(h, k, v)]) = [(h, k, v)]"
  by (induction ns) (auto simp: from_node_def handles_def handle_def)

lemma insert_returns_new:
  assumes "consistent m"
  shows "deref (fst (insert_omm k v m)) (list_nodes (snd (insert_omm k v m))) = Some (k, v) \<and>
         std_next (fst (insert_omm k v m)) (list_nodes (snd (insert_omm k v m))) = Some End"
proof -
  from assms have "next_addr m \<notin> set (handles (list_nodes m))" by (auto simp: consistent_def)
  from from_node_new [OF this] show ?thesis
    by (simp add: insert_omm_def Let_def deref_def std_next_def entry_def list_begin_def)
qed

subsection \<open>The operations on consistent containers\<close>

lemma erase_key_consistent:
  assumes "consistent m"
  shows "\<exists>it m'. erase_key key m = Some (it, m') \<and> count_omm key m' = 0 \<and> \<not> has key m' \<and>
           list_nodes m' = filter (\<lambda>n. key_of n \<noteq> key) (list_nodes m)"
proof -
  let ?m = "without (set (index_handles key m)) m"
  from erase_key_result [OF assms, of key] obtain it where it: "erase_key key m = Some (it, ?m)"
    by blast
  have c: "consistent ?m" by (rule consistent_without [OF assms])
  have i: "index_handles key ?m = []"
    by (simp add: index_handles_without filter_empty_conv)
  from i have "count_omm key ?m = 0" "\<not> has key ?m"
    by (simp_all add: count_omm_eq [OF c] has_iff [OF c])
  with it without_key_nodes [OF assms, of key] show ?thesis by blast
qed

lemma merge_consistent:
  assumes "consistent a"
  shows "to_vector (fst (merge a b)) = to_vector a @ to_vector b \<and>
         one_to_one (fst (merge a b)) \<and>
         size_omm (snd (merge a b)) = 0 \<and> list_nodes (snd (merge a b)) = [] \<and>
         table (snd (merge a b)) = []"
  using consistent_one_to_one [OF consistent_merge_loop [OF assms, of "list_nodes b"]]
  by (simp add: merge_def to_vector_merge_loop size_omm_def clear_def) (simp add: to_vector_def)

lemma first_in_sequence:
  assumes "index_in_sequence_order key m" and "index_handles key m \<noteq> []"
  shows "It (hd (index_handles key m)) = list_begin (nodes_with key m)"
proof -
  from assms(1) have eq: "index_handles key m = handles (nodes_with key m)"
    by (simp add: index_in_sequence_order_def)
  with assms(2) obtain n rest where "nodes_with key m = n # rest"
    by (cases "nodes_with key m") (auto simp: handles_def)
  with eq show ?thesis by (simp add: list_begin_def handles_def)
qed

lemma extract_consistent:
  assumes "consistent m"
  shows "\<exists>vals m'. extract_omm key m = Some (vals, m') \<and>
           map Some vals = map (\<lambda>h. map_option snd (deref (It h) (list_nodes m))) (index_handles key m) \<and>
           (index_in_sequence_order key m \<longrightarrow> vals = map (\<lambda>n. snd (entry n)) (nodes_with key m)) \<and>
           count_omm key m' = 0 \<and>
           list_nodes m' = filter (\<lambda>n. key_of n \<noteq> key) (list_nodes m)"
proof -
  let ?m = "without (set (index_handles key m)) m"
  from extract_result [OF assms, of key] obtain vals where
    ex: "extract_omm key m = Some (vals, ?m)"
    and vals: "map Some vals = map (\<lambda>h. map_option snd (deref (It h) (list_nodes m))) (index_handles key m)"
    by blast
  have c: "consistent ?m" by (rule consistent_without [OF assms])
  have "index_handles key ?m = []"
    by (simp add: index_handles_without filter_empty_conv)
  then have cnt: "count_omm key ?m = 0" by (simp add: count_omm_eq [OF c])
  have seq: "vals = map (\<lambda>n. snd (entry n)) (nodes_with key m)" if "index_in_sequence_order key m"
  proof -
    from assms have d: "distinct (handles (list_nodes m))" by (simp add: consistent_def)
    have "map Some vals = map (\<lambda>h. map_option snd (deref (It h) (list_nodes m))) (handles (nodes_with key m))"
      using vals that by (simp add: index_in_sequence_order_def)
    also have "\<dots> = map (\<lambda>n. map_option snd (deref (It (handle n)) (list_nodes m))) (nodes_with key m)"
      by (simp add: handles_def comp_def)
    also have "\<dots> = map (\<lambda>n. Some (snd (entry n))) (nodes_with key m)"
      by (rule map_cong) (simp_all add: nodes_with_def deref_node [OF d])
    also have "\<dots> = map Some (map (\<lambda>n. snd (entry n)) (nodes_with key m))"
      by (simp add: comp_def)
    finally have "map Some vals = map Some (map (\<lambda>n. snd (entry n)) (nodes_with key m))" .
    moreover have "inj (Some :: 'b \<Rightarrow> 'b option)" by (simp add: inj_on_def)
    ultimately show ?thesis by (simp only: inj_map_eq_map)
  qed
  from ex vals cnt seq without_key_nodes [OF assms, of key] show ?thesis by blast
qed

lemmas eval_defs = inserts_def insert_omm_def empty_omm_def equal_range_def
  multimap_equal_range_def lower_bound_def upper_bound_def std_next_def from_node_def
  handle_def entry_def list_begin_def iterate_def to_vector_def deref_def erase_iterator_def
  multimap_find_def list_erase_def handles_def multimap_erase_def erase_key_def between_def
  multimap_erase_range_def extract_omm_def sort_omm_def list_sort_def compare_value_def
  update_def set_value_def begin_omm_def emplace_def clear_def merge_def key_of_def
  has_def count_omm_def nodes_with_def index_handles_def size_omm_def front_def end_omm_def

section \<open>The claims\<close>

text \<open>
  C1 (\<^verbatim>\<open>equal_range\<close> spans all entries of the key and no others). On the container of
  the test \<^verbatim>\<open>test_equal_range\<close>, after inserting (x,10), (x,11), (y,20), (x,12), the code
  returns for the key x the pair of the iterator to (x,10) and the iterator to (x,12):
  the end of the range is the successor of the node of the first index element with a
  greater key. The range read by the caller is (x,10), (x,11), (y,20): it holds an entry
  of the key y and misses the entry (x,12).
\<close>

theorem equal_range_test_scenario:
  "equal_range ''x'' (inserts [(''x'', 10::int), (''x'', 11), (''y'', 20), (''x'', 12)])
     = Some (It 0, It 3) \<and>
   iterate (It 0) (It 3)
     (list_nodes (inserts [(''x'', 10::int), (''x'', 11), (''y'', 20), (''x'', 12)]))
     = Some [(''x'', 10), (''x'', 11), (''y'', 20)] \<and>
   to_vector (inserts [(''x'', 10::int), (''x'', 11), (''y'', 20), (''x'', 12)])
     = [(''x'', 10), (''x'', 11), (''y'', 20), (''x'', 12)]"
  by (simp add: eval_defs)

text \<open>
  C2 (\<^verbatim>\<open>erase(iterator)\<close> removes the entry the iterator refers to). After inserting
  (a,1) and (a,2), erasing through the iterator to (a,2) removes (a,1): the index
  element is looked up by key, and the node of the element found is the one erased. The
  entry the iterator refers to stays, and the call returns \<^verbatim>\<open>end()\<close>.
\<close>

theorem erase_iterator_second_duplicate:
  "deref (It 1) (list_nodes (inserts [(''a'', 1::int), (''a'', 2)])) = Some (''a'', 2) \<and>
   erase_iterator (It 1) (inserts [(''a'', 1::int), (''a'', 2)])
     = Some (End, \<lparr>list_nodes = [(1, ''a'', 2)], table = [(''a'', 1)], next_addr = 2\<rparr>)"
  by (simp add: eval_defs)

text \<open>
  C3 (1:1 correspondence of the sequence store and the key index). In every state that
  a sequence of operations reaches from the empty container, each node has exactly one
  index element holding its address, with the node's key, and each index element holds
  the address of a node in the list with the element's key.
\<close>

theorem one_to_one_correspondence:
  assumes "run cs empty_omm = Some m"
  shows "one_to_one m"
proof -
  have "consistent (empty_omm :: ('a, 'b) ordered_multimap_t)" by (rule consistent_empty)
  then have "consistent m" using assms by (rule run_consistent)
  then show ?thesis by (rule consistent_one_to_one)
qed

theorem one_to_one_correspondence_witness:
  "run [Insert ''a'' (1::int), Insert ''b'' 2, Insert ''a'' 3, Erase_iterator (It 2)] empty_omm
     = Some \<lparr>list_nodes = [(1, ''b'', 2), (2, ''a'', 3)], table = [(''a'', 2), (''b'', 1)],
              next_addr = 3\<rparr> \<and>
   one_to_one \<lparr>list_nodes = [(1, ''b'', 2::int), (2, ''a'', 3)], table = [(''a'', 2), (''b'', 1)],
              next_addr = 3\<rparr>"
proof -
  have r: "run [Insert ''a'' (1::int), Insert ''b'' 2, Insert ''a'' 3, Erase_iterator (It 2)] empty_omm
     = Some \<lparr>list_nodes = [(1, ''b'', 2), (2, ''a'', 3)], table = [(''a'', 2), (''b'', 1)],
              next_addr = 3\<rparr>"
    by (simp add: eval_defs)
  from r one_to_one_correspondence [OF r] show ?thesis by simp
qed

text \<open>
  C4 (\<^verbatim>\<open>extract\<close> returns what \<^verbatim>\<open>equal_range\<close> would have yielded, in sequence order).
  The claim fails in two ways. On the container of the test \<^verbatim>\<open>test_extract\<close>, after
  inserting (x,100), (y,200), (x,101), (x,102), \<^verbatim>\<open>extract\<close> returns 100, 101, 102 while
  the range \<^verbatim>\<open>equal_range\<close> returns reads (x,100), (y,200). After inserting (x,2), (x,1)
  and sorting by value the sequence is (x,1), (x,2), and \<^verbatim>\<open>extract\<close> returns 2, 1: the
  order of the index, which a sort leaves alone.
\<close>

theorem extract_round_trip_counterexample:
  "extract_omm ''x'' (inserts [(''x'', 100::int), (''y'', 200), (''x'', 101), (''x'', 102)])
     = Some ([100, 101, 102],
             \<lparr>list_nodes = [(1, ''y'', 200)], table = [(''y'', 1)], next_addr = 4\<rparr>) \<and>
   equal_range ''x'' (inserts [(''x'', 100::int), (''y'', 200), (''x'', 101), (''x'', 102)])
     = Some (It 0, It 2) \<and>
   iterate (It 0) (It 2)
     (list_nodes (inserts [(''x'', 100::int), (''y'', 200), (''x'', 101), (''x'', 102)]))
     = Some [(''x'', 100), (''y'', 200)] \<and>
   to_vector (sort_omm compare_value (inserts [(''x'', 2), (''x'', 1)]))
     = [(''x'', 1), (''x'', 2)] \<and>
   extract_omm ''x'' (sort_omm compare_value (inserts [(''x'', 2), (''x'', 1)]))
     = Some ([2, 1], \<lparr>list_nodes = [], table = [], next_addr = 2\<rparr>)"
  by (simp add: eval_defs)

text \<open>
  C4 as amended. In every state reached from the empty container, \<^verbatim>\<open>extract(key)\<close>
  returns one value for each entry of the key, in the order in which the entries were
  inserted: the values are read through the index elements of the key, which hold the
  addresses of exactly the nodes of the key, each once, ascending by address (addresses
  are handed out in insertion order). When no sort is among the operations that led to
  the state, these are the values of the key's entries in sequence order. After the call
  \<^verbatim>\<open>count(key)\<close> is 0 and the list is the old list without the nodes of the key: the
  other entries are unchanged, at their addresses and in their order.
\<close>

theorem extract_semantics:
  assumes "run cs empty_omm = Some m"
  shows "\<exists>vals m'. extract_omm key m = Some (vals, m') \<and>
           map Some vals = map (\<lambda>h. map_option snd (deref (It h) (list_nodes m))) (index_handles key m) \<and>
           sorted (index_handles key m) \<and> distinct (index_handles key m) \<and>
           set (index_handles key m) = handle ` set (nodes_with key m) \<and>
           ((\<forall>c \<in> set cs. \<not> is_sort c) \<longrightarrow> vals = map (\<lambda>n. snd (entry n)) (nodes_with key m)) \<and>
           count_omm key m' = 0 \<and>
           list_nodes m' = filter (\<lambda>n. key_of n \<noteq> key) (list_nodes m)"
proof -
  have c: "consistent m" by (rule run_consistent [OF consistent_empty assms])
  have o: "sorted (index_handles key m)"
    by (rule run_insertion_order [OF consistent_empty insertion_order_empty assms])
  have d: "distinct (index_handles key m)" by (rule distinct_index_handles [OF c])
  have s: "set (index_handles key m) = handle ` set (nodes_with key m)"
    by (rule set_index_handles [OF c])
  have "index_in_sequence_order key m" if "\<forall>c \<in> set cs. \<not> is_sort c"
    by (rule run_order [OF consistent_empty order_empty that assms])
  with extract_consistent [OF c, of key] o d s show ?thesis by blast
qed

theorem extract_semantics_witness:
  "run [Insert ''x'' (10::int), Insert ''x'' 11, Insert ''y'' 20, Insert ''x'' 12] empty_omm
     = Some (inserts [(''x'', 10), (''x'', 11), (''y'', 20), (''x'', 12)]) \<and>
   extract_omm ''x'' (inserts [(''x'', 10::int), (''x'', 11), (''y'', 20), (''x'', 12)])
     = Some ([10, 11, 12],
             \<lparr>list_nodes = [(2, ''y'', 20)], table = [(''y'', 2)], next_addr = 4\<rparr>) \<and>
   map (\<lambda>n. snd (entry n))
     (nodes_with ''x'' (inserts [(''x'', 10::int), (''x'', 11), (''y'', 20), (''x'', 12)]))
     = [10, 11, 12] \<and>
   count_omm ''x''
     \<lparr>list_nodes = [(2, ''y'', 20::int)], table = [(''y'', 2)], next_addr = 4\<rparr> = 0"
proof -
  have r: "run [Insert ''x'' (10::int), Insert ''x'' 11, Insert ''y'' 20, Insert ''x'' 12] empty_omm
     = Some (inserts [(''x'', 10), (''x'', 11), (''y'', 20), (''x'', 12)])"
    by (simp add: eval_defs)
  have s: "\<forall>c \<in> set [Insert ''x'' (10::int), Insert ''x'' 11, Insert ''y'' 20, Insert ''x'' 12]. \<not> is_sort c"
    by simp
  have e: "extract_omm ''x'' (inserts [(''x'', 10::int), (''x'', 11), (''y'', 20), (''x'', 12)])
     = Some ([10, 11, 12],
             \<lparr>list_nodes = [(2, ''y'', 20)], table = [(''y'', 2)], next_addr = 4\<rparr>)"
    by (simp add: eval_defs)
  from extract_semantics [OF r, of "''x''"] s e
  have "[10, 11, 12] = map (\<lambda>n. snd (entry n))
          (nodes_with ''x'' (inserts [(''x'', 10::int), (''x'', 11), (''y'', 20), (''x'', 12)])) \<and>
        count_omm ''x''
          \<lparr>list_nodes = [(2, ''y'', 20::int)], table = [(''y'', 2)], next_addr = 4\<rparr> = 0"
    by auto
  with r e show ?thesis by simp
qed

text \<open>
  C5 (\<^verbatim>\<open>update\<close> returns the first entry of the key in sequence order). After inserting
  (a,2), (a,1) and sorting by value the sequence is (a,1) at address 1, then (a,2) at
  address 0. \<^verbatim>\<open>update\<close> of the key a sets both values and returns the iterator to
  address 0, the second entry of the sequence: the first element of the key in the
  index, which a sort leaves alone.
\<close>

theorem update_first_counterexample:
  "list_nodes (sort_omm compare_value (inserts [(''a'', 2), (''a'', 1)]))
     = [(1, ''a'', 1), (0, ''a'', 2)] \<and>
   begin_omm (sort_omm compare_value (inserts [(''a'', 2), (''a'', 1)])) = It 1 \<and>
   update ''a'' 5 (sort_omm compare_value (inserts [(''a'', 2), (''a'', 1)]))
     = Some (It 0, \<lparr>list_nodes = [(1, ''a'', 5), (0, ''a'', 5)],
                     table = [(''a'', 0), (''a'', 1)], next_addr = 2\<rparr>)"
  by (simp add: eval_defs)

text \<open>
  C5 as amended. In every state reached from the empty container: \<^verbatim>\<open>update(key, v)\<close> on
  a key with at least one entry sets the value of every node of the key to \<open>v\<close>, keeps
  every node's address, key and position and the whole index, and returns the iterator
  to the earliest inserted of the key's entries: the address held by the first index
  element of the key, where the index elements of the key hold the addresses of exactly
  the nodes of the key, each once, ascending by address (addresses are handed out in
  insertion order). When no sort is among the operations that led to the state, this is
  the first entry of the key in sequence order. On a key with no entry the call is
  \<^verbatim>\<open>insert(key, v)\<close>.
\<close>

theorem update_semantics:
  assumes "run cs empty_omm = Some m"
  shows "(has key m \<longrightarrow>
            (\<exists>it m'. update key val m = Some (it, m') \<and>
               list_nodes m' = map (\<lambda>n. if key_of n = key then (handle n, key, val) else n) (list_nodes m) \<and>
               table m' = table m \<and>
               index_handles key m \<noteq> [] \<and>
               it = It (hd (index_handles key m)) \<and>
               sorted (index_handles key m) \<and> distinct (index_handles key m) \<and>
               set (index_handles key m) = handle ` set (nodes_with key m) \<and>
               ((\<forall>c \<in> set cs. \<not> is_sort c) \<longrightarrow> it = list_begin (nodes_with key m)))) \<and>
         (\<not> has key m \<longrightarrow> update key val m = Some (insert_omm key val m))"
proof (cases "index_handles key m = []")
  case True
  have c: "consistent m" by (rule run_consistent [OF consistent_empty assms])
  from update_absent [OF c True, of val] True show ?thesis by (simp add: has_iff [OF c])
next
  case False
  have c: "consistent m" by (rule run_consistent [OF consistent_empty assms])
  have o: "sorted (index_handles key m)"
    by (rule run_insertion_order [OF consistent_empty insertion_order_empty assms])
  have d: "distinct (index_handles key m)" by (rule distinct_index_handles [OF c])
  have s: "set (index_handles key m) = handle ` set (nodes_with key m)"
    by (rule set_index_handles [OF c])
  have "It (hd (index_handles key m)) = list_begin (nodes_with key m)"
    if "\<forall>c \<in> set cs. \<not> is_sort c"
    by (rule first_in_sequence [OF run_order [OF consistent_empty order_empty that assms] False])
  with update_present [OF c False, of val] False o d s show ?thesis
    by (simp add: has_iff [OF c])
qed

theorem update_semantics_witness:
  "run [Insert ''a'' (1::int), Insert ''b'' 2, Insert ''a'' 3] empty_omm
     = Some (inserts [(''a'', 1), (''b'', 2), (''a'', 3)]) \<and>
   has ''a'' (inserts [(''a'', 1::int), (''b'', 2), (''a'', 3)]) \<and>
   update ''a'' 9 (inserts [(''a'', 1::int), (''b'', 2), (''a'', 3)])
     = Some (It 0, \<lparr>list_nodes = [(0, ''a'', 9), (1, ''b'', 2), (2, ''a'', 9)],
                     table = [(''a'', 0), (''a'', 2), (''b'', 1)], next_addr = 3\<rparr>) \<and>
   list_begin (nodes_with ''a'' (inserts [(''a'', 1::int), (''b'', 2), (''a'', 3)])) = It 0 \<and>
   \<not> has ''c'' (inserts [(''a'', 1::int), (''b'', 2), (''a'', 3)]) \<and>
   update ''c'' 9 (inserts [(''a'', 1::int), (''b'', 2), (''a'', 3)])
     = Some (insert_omm ''c'' 9 (inserts [(''a'', 1::int), (''b'', 2), (''a'', 3)]))"
proof -
  have r: "run [Insert ''a'' (1::int), Insert ''b'' 2, Insert ''a'' 3] empty_omm
     = Some (inserts [(''a'', 1), (''b'', 2), (''a'', 3)])"
    by (simp add: eval_defs)
  have s: "\<forall>c \<in> set [Insert ''a'' (1::int), Insert ''b'' 2, Insert ''a'' 3]. \<not> is_sort c"
    by simp
  have h: "has ''a'' (inserts [(''a'', 1::int), (''b'', 2), (''a'', 3)])"
    "\<not> has ''c'' (inserts [(''a'', 1::int), (''b'', 2), (''a'', 3)])"
    by (simp_all add: eval_defs)
  have u: "update ''a'' 9 (inserts [(''a'', 1::int), (''b'', 2), (''a'', 3)])
     = Some (It 0, \<lparr>list_nodes = [(0, ''a'', 9), (1, ''b'', 2), (2, ''a'', 9)],
                     table = [(''a'', 0), (''a'', 2), (''b'', 1)], next_addr = 3\<rparr>)"
    by (simp add: eval_defs)
  from update_semantics [OF r, of "''a''" 9] h(1) s u
  have b: "list_begin (nodes_with ''a'' (inserts [(''a'', 1::int), (''b'', 2), (''a'', 3)])) = It 0"
    by auto
  from update_semantics [OF r, of "''c''" 9] h(2)
  have "update ''c'' 9 (inserts [(''a'', 1::int), (''b'', 2), (''a'', 3)])
     = Some (insert_omm ''c'' 9 (inserts [(''a'', 1::int), (''b'', 2), (''a'', 3)]))"
    by simp
  with r h u b show ?thesis by simp
qed

text \<open>
  C6 (\<^verbatim>\<open>erase(key)\<close> returns a valid iterator to the entry after the erased run). On the
  container of the test \<^verbatim>\<open>test_erase_by_key\<close>, after inserting (d,1), (d,2), (e,3),
  erasing the key d returns the iterator to the node of (d,2), which the same call has
  erased: the returned iterator is dangling, while the entry after the erased run is
  (e,3) at address 2.
\<close>

theorem erase_key_test_scenario:
  "erase_key ''d'' (inserts [(''d'', 1::int), (''d'', 2), (''e'', 3)])
     = Some (It 1, \<lparr>list_nodes = [(2, ''e'', 3)], table = [(''e'', 2)], next_addr = 3\<rparr>) \<and>
   deref (It 1) [(2, ''e'', 3::int)] = None \<and>
   list_begin [(2::nat, ''e'', 3::int)] = It 2"
  by (simp add: eval_defs)

text \<open>
  C7 (\<^verbatim>\<open>erase(key)\<close> removes every entry of the key and nothing else). In every state
  reached from the empty container, \<^verbatim>\<open>erase(key)\<close> returns, and afterwards \<^verbatim>\<open>count(key)\<close>
  is 0, \<^verbatim>\<open>has(key)\<close> is false, and the list is the old list without the nodes of the key:
  every entry with another key is still there, with its address and value, in the same
  relative order.
\<close>

theorem erase_key_complete:
  assumes "run cs empty_omm = Some m"
  shows "\<exists>it m'. erase_key key m = Some (it, m') \<and> count_omm key m' = 0 \<and> \<not> has key m' \<and>
           list_nodes m' = filter (\<lambda>n. key_of n \<noteq> key) (list_nodes m)"
proof -
  have "consistent (empty_omm :: ('a, 'b) ordered_multimap_t)" by (rule consistent_empty)
  then have "consistent m" using assms by (rule run_consistent)
  then show ?thesis by (rule erase_key_consistent)
qed

theorem erase_key_complete_witness:
  "run [Insert ''a'' (1::int), Insert ''b'' 2, Insert ''a'' 3, Insert ''c'' 4] empty_omm
     = Some (inserts [(''a'', 1), (''b'', 2), (''a'', 3), (''c'', 4)]) \<and>
   erase_key ''a'' (inserts [(''a'', 1::int), (''b'', 2), (''a'', 3), (''c'', 4)])
     = Some (It 1, \<lparr>list_nodes = [(1, ''b'', 2), (3, ''c'', 4)],
                     table = [(''b'', 1), (''c'', 3)], next_addr = 4\<rparr>) \<and>
   count_omm ''a'' \<lparr>list_nodes = [(1, ''b'', 2::int), (3, ''c'', 4)],
                    table = [(''b'', 1), (''c'', 3)], next_addr = 4\<rparr> = 0 \<and>
   \<not> has ''a'' \<lparr>list_nodes = [(1, ''b'', 2::int), (3, ''c'', 4)],
                   table = [(''b'', 1), (''c'', 3)], next_addr = 4\<rparr>"
proof -
  have r: "run [Insert ''a'' (1::int), Insert ''b'' 2, Insert ''a'' 3, Insert ''c'' 4] empty_omm
     = Some (inserts [(''a'', 1), (''b'', 2), (''a'', 3), (''c'', 4)])"
    by (simp add: eval_defs)
  have e: "erase_key ''a'' (inserts [(''a'', 1::int), (''b'', 2), (''a'', 3), (''c'', 4)])
     = Some (It 1, \<lparr>list_nodes = [(1, ''b'', 2), (3, ''c'', 4)],
                     table = [(''b'', 1), (''c'', 3)], next_addr = 4\<rparr>)"
    by (simp add: eval_defs)
  from erase_key_complete [OF r, of "''a''"] e
  have "count_omm ''a'' \<lparr>list_nodes = [(1, ''b'', 2::int), (3, ''c'', 4)],
                    table = [(''b'', 1), (''c'', 3)], next_addr = 4\<rparr> = 0 \<and>
        \<not> has ''a'' \<lparr>list_nodes = [(1, ''b'', 2::int), (3, ''c'', 4)],
                   table = [(''b'', 1), (''c'', 3)], next_addr = 4\<rparr>"
    by auto
  with r e show ?thesis by simp
qed

text \<open>
  C8 (insertion order). After any sequence of \<^verbatim>\<open>insert\<close> and \<^verbatim>\<open>emplace\<close> calls on the
  empty container, forward iteration reads the entries in the order of the calls and
  reverse iteration reads them in the reverse order. A further \<^verbatim>\<open>insert\<close> appends its
  entry at the end of the sequence and returns an iterator that dereferences to the new
  entry and whose successor is \<^verbatim>\<open>end()\<close>; \<^verbatim>\<open>emplace\<close> does the same.
\<close>

theorem insertion_order:
  "forward_iteration (call_insertions cs empty_omm) = Some (map inserted cs) \<and>
   reverse_iteration (call_insertions cs empty_omm) = Some (rev (map inserted cs)) \<and>
   to_vector (snd (insert_omm k v (call_insertions cs empty_omm)))
     = to_vector (call_insertions cs empty_omm) @ [(k, v)] \<and>
   deref (fst (insert_omm k v (call_insertions cs empty_omm)))
     (list_nodes (snd (insert_omm k v (call_insertions cs empty_omm)))) = Some (k, v) \<and>
   std_next (fst (insert_omm k v (call_insertions cs empty_omm)))
     (list_nodes (snd (insert_omm k v (call_insertions cs empty_omm)))) = Some End \<and>
   emplace k v (call_insertions cs empty_omm) = insert_omm k v (call_insertions cs empty_omm)"
proof -
  have e: "to_vector (empty_omm :: ('a, 'b) ordered_multimap_t) = []"
    by (simp add: to_vector_def empty_omm_def)
  have c: "consistent (call_insertions cs (empty_omm :: ('a, 'b) ordered_multimap_t))"
    by (rule consistent_call_insertions [OF consistent_empty])
  show ?thesis
    using insert_returns_new [OF c, of k v]
    by (simp add: forward_iteration_eq reverse_iteration_eq to_vector_call_insertions e
        to_vector_insert emplace_insert)
qed

text \<open>
  C9 (\<^verbatim>\<open>merge\<close>). For a container \<open>a\<close> reached from the empty container and any other
  container \<open>b\<close>, after \<^verbatim>\<open>a.merge(std::move(b))\<close> the sequence of \<open>a\<close> is its old sequence
  followed by the sequence of \<open>b\<close>, the index of \<open>a\<close> corresponds 1:1 to its nodes, and
  \<open>b\<close> has no node and no index element.
\<close>

theorem merge_appends:
  assumes "run cs empty_omm = Some a"
  shows "to_vector (fst (merge a b)) = to_vector a @ to_vector b \<and>
         one_to_one (fst (merge a b)) \<and>
         size_omm (snd (merge a b)) = 0 \<and> list_nodes (snd (merge a b)) = [] \<and>
         table (snd (merge a b)) = []"
proof -
  have "consistent (empty_omm :: ('a, 'b) ordered_multimap_t)" by (rule consistent_empty)
  then have "consistent a" using assms by (rule run_consistent)
  then show ?thesis by (rule merge_consistent)
qed

theorem merge_appends_witness:
  "run [Insert ''a'' (1::int), Insert ''b'' 2] empty_omm = Some (inserts [(''a'', 1), (''b'', 2)]) \<and>
   to_vector (fst (merge (inserts [(''a'', 1::int), (''b'', 2)]) (inserts [(''c'', 3), (''a'', 4)])))
     = [(''a'', 1), (''b'', 2), (''c'', 3), (''a'', 4)] \<and>
   one_to_one (fst (merge (inserts [(''a'', 1::int), (''b'', 2)]) (inserts [(''c'', 3), (''a'', 4)]))) \<and>
   size_omm (snd (merge (inserts [(''a'', 1::int), (''b'', 2)]) (inserts [(''c'', 3), (''a'', 4)]))) = 0"
proof -
  have r: "run [Insert ''a'' (1::int), Insert ''b'' 2] empty_omm = Some (inserts [(''a'', 1), (''b'', 2)])"
    by (simp add: eval_defs)
  have v: "to_vector (inserts [(''a'', 1::int), (''b'', 2)]) @ to_vector (inserts [(''c'', 3), (''a'', 4)])
           = [(''a'', 1), (''b'', 2), (''c'', 3), (''a'', 4)]"
    by (simp add: eval_defs)
  from merge_appends [OF r, of "inserts [(''c'', 3), (''a'', 4)]"] r show ?thesis
    unfolding v by simp
qed

text \<open>
  C10 (\<^verbatim>\<open>front()\<close> of an empty container). \<^verbatim>\<open>front()\<close> returns \<^verbatim>\<open>list.begin()\<close> without
  dereferencing it; on a container without entries this is the iterator \<^verbatim>\<open>end()\<close>
  returns.
\<close>

theorem front_of_empty: "size_omm m = 0 \<Longrightarrow> front m = end_omm m"
  by (simp add: size_omm_def front_def end_omm_def list_begin_def)

theorem front_of_empty_witness:
  "size_omm (empty_omm :: (string, int) ordered_multimap_t) = 0 \<and>
   front (empty_omm :: (string, int) ordered_multimap_t)
     = end_omm (empty_omm :: (string, int) ordered_multimap_t)"
  using front_of_empty [of "empty_omm :: (string, int) ordered_multimap_t"]
  by (simp add: size_omm_def empty_omm_def)

end
